theory Spec2Isabelle
  imports Complex_Main "HOL-Library.Word" "HOL-Library.Log_Nat"
begin

section \<open>Python values and exceptions\<close>

text \<open>
  The two functions of \<^verbatim>\<open>app.py\<close> with logic of their own are
  \<^verbatim>\<open>assign_variant_and_placement\<close> (lines 65-72) and \<^verbatim>\<open>wilson_interval\<close>
  (lines 170-176). Both compute with Python floats, so the embedding starts with the
  arithmetic of IEEE 754 binary64 as CPython exposes it.

  An exception is a value: every operation that can raise returns \<open>error + 'a\<close>, with
  \<open>Inl\<close> for the exception, and \<open>ebind\<close> sequences two operations the way Python
  evaluates one statement after the other, stopping at the first exception.
\<close>

datatype error = ValueError | OverflowError | ZeroDivisionError | IndexError | UnicodeEncodeError

fun ebind :: "error + 'a \<Rightarrow> ('a \<Rightarrow> error + 'b) \<Rightarrow> error + 'b" where
  "ebind (Inl e) f = Inl e"
| "ebind (Inr x) f = f x"

subsection \<open>Binary64 rounding\<close>

text \<open>
  A finite double is the rational number it denotes; \<open>PosInf\<close>, \<open>NegInf\<close> and \<open>NaN\<close> are
  the three special values. The sign of a zero is not represented: no comparison and no
  operation used here can tell \<open>-0.0\<close> from \<open>0.0\<close> (division by either raises).

  \<open>round_double x\<close> is the double nearest to the rational \<open>x\<close>, ties to the even
  significand, with 53 significant bits, gradual underflow below \<open>2 powi (- 1022)\<close> and
  no upper limit on the exponent; the operations below turn a rounded result of magnitude
  \<open>2 ^ 1024\<close> or more (\<open>overflows\<close>: its binade is 1024 or higher) into an infinity or
  an \<open>OverflowError\<close>, whichever CPython does.
  \<open>ilog2 x\<close> is the exponent of the binade of a positive \<open>x\<close>, computed from the bit
  lengths of its numerator and denominator.
\<close>

datatype pyfloat = Finite rat | PosInf | NegInf | NaN

definition ilog2_adjust :: "rat \<Rightarrow> int \<Rightarrow> int" where
  "ilog2_adjust x d = (if x < 2 powi d then d - 1 else d)"

definition ilog2 :: "rat \<Rightarrow> int" where
  "ilog2 x = (case quotient_of x of (p, q) \<Rightarrow> ilog2_adjust x (bitlen p - bitlen q))"

definition tie_even :: "int \<Rightarrow> rat \<Rightarrow> int" where
  "tie_even f r = (if r < 1 / 2 then f else if 1 / 2 < r then f + 1
                   else if even f then f else f + 1)"

definition round_half_even :: "rat \<Rightarrow> int" where
  "round_half_even x = tie_even \<lfloor>x\<rfloor> (x - of_int \<lfloor>x\<rfloor>)"

definition round_to_ulp :: "rat \<Rightarrow> rat \<Rightarrow> rat" where
  "round_to_ulp u x = of_int (round_half_even (x / u)) * u"

definition double_exponent :: "rat \<Rightarrow> int" where
  "double_exponent x = max (ilog2 \<bar>x\<bar>) (- 1022)"

definition round_double :: "rat \<Rightarrow> rat" where
  "round_double x = (if x = 0 then 0 else round_to_ulp (2 powi (double_exponent x - 52)) x)"

definition overflows :: "rat \<Rightarrow> bool" where
  "overflows r = (r \<noteq> 0 \<and> 1024 \<le> ilog2 \<bar>r\<bar>)"

definition to_float_rounded :: "rat \<Rightarrow> pyfloat" where
  "to_float_rounded r = (if overflows r then (if 0 < r then PosInf else NegInf) else Finite r)"

definition to_float :: "rat \<Rightarrow> pyfloat" where
  "to_float x = to_float_rounded (round_double x)"

definition checked_rounded :: "rat \<Rightarrow> error + pyfloat" where
  "checked_rounded r = (if overflows r then Inl OverflowError else Inr (Finite r))"

subsection \<open>Square root\<close>

text \<open>
  \<open>isqrt\<close> is the integer square root, by one binary digit per call. \<open>sqrt_double x\<close>
  is the double nearest to the square root of a positive double \<open>x\<close>, which is what
  \<^verbatim>\<open>math.sqrt\<close> returns (the C library's \<^verbatim>\<open>sqrt\<close> is correctly rounded): the root
  lies in the binade \<open>ilog2 x div 2\<close>, and its 53-bit significand is the integer root
  of \<open>x\<close> scaled by the square of the unit in the last place, moved up by one when the
  remainder passes the half.
\<close>

definition isqrt_step :: "int \<Rightarrow> int \<Rightarrow> int" where
  "isqrt_step n s = (if (2 * s + 1) * (2 * s + 1) \<le> n then 2 * s + 1 else 2 * s)"

function isqrt :: "int \<Rightarrow> int" where
  "isqrt n = (if n \<le> 0 then 0 else isqrt_step n (isqrt (n div 4)))"
  by pat_completeness auto
termination
  by (relation "measure nat") auto

declare isqrt.simps [simp del]

definition sqrt_round :: "rat \<Rightarrow> int \<Rightarrow> int" where
  "sqrt_round y m =
     (if y < (of_int m + 1 / 2) * (of_int m + 1 / 2) then m
      else if (of_int m + 1 / 2) * (of_int m + 1 / 2) < y then m + 1
      else if even m then m else m + 1)"

definition sqrt_to_ulp :: "rat \<Rightarrow> rat \<Rightarrow> rat" where
  "sqrt_to_ulp u x = of_int (sqrt_round (x / (u * u)) (isqrt \<lfloor>x / (u * u)\<rfloor>)) * u"

definition sqrt_double :: "rat \<Rightarrow> rat" where
  "sqrt_double x = (if x \<le> 0 then 0 else sqrt_to_ulp (2 powi (ilog2 x div 2 - 52)) x)"

subsection \<open>Float operations of CPython\<close>

text \<open>
  \<^verbatim>\<open>+\<close>, \<^verbatim>\<open>-\<close> and \<^verbatim>\<open>*\<close> on floats never raise: a result out of range is an
  infinity, an undefined one is \<open>NaN\<close>. \<^verbatim>\<open>/\<close> raises \<open>ZeroDivisionError\<close> on a zero
  divisor, whatever the dividend. \<^verbatim>\<open>int / int\<close> is the correctly rounded quotient of
  the two integers and raises \<open>OverflowError\<close> when that leaves the doubles; so does the
  conversion of an \<^verbatim>\<open>int\<close> operand of a mixed operation. \<^verbatim>\<open>z ** 2\<close> goes through the
  C library's \<^verbatim>\<open>pow\<close> and raises \<open>OverflowError\<close> out of range; \<open>fpow2\<close> takes the
  correctly rounded square for its value. That is the library's value at the default
  \<open>z = 1.96\<close>, the only \<open>z\<close> the program passes; for other \<open>z\<close> the library may
  return the neighbouring double, and no statement below rests on the value of
  \<open>fpow2\<close> at another \<open>z\<close>. \<^verbatim>\<open>math.sqrt\<close> raises \<open>ValueError\<close> on a negative
  argument. \<^verbatim>\<open>max(a, b)\<close> is \<open>b\<close> when \<^verbatim>\<open>b > a\<close> and \<open>a\<close> otherwise,
  \<^verbatim>\<open>min(a, b)\<close> is \<open>b\<close> when \<^verbatim>\<open>b < a\<close>; a comparison with \<open>NaN\<close> is false.
  \<^verbatim>\<open>int(x)\<close> truncates towards zero.
\<close>

fun is_zero :: "pyfloat \<Rightarrow> bool" where
  "is_zero (Finite a) = (a = 0)"
| "is_zero PosInf = False"
| "is_zero NegInf = False"
| "is_zero NaN = False"

fun is_negative :: "pyfloat \<Rightarrow> bool" where
  "is_negative (Finite a) = (a < 0)"
| "is_negative PosInf = False"
| "is_negative NegInf = True"
| "is_negative NaN = False"

definition signed_inf :: "bool \<Rightarrow> pyfloat" where
  "signed_inf neg = (if neg then NegInf else PosInf)"

fun fneg :: "pyfloat \<Rightarrow> pyfloat" where
  "fneg (Finite a) = Finite (- a)"
| "fneg PosInf = NegInf"
| "fneg NegInf = PosInf"
| "fneg NaN = NaN"

fun fadd :: "pyfloat \<Rightarrow> pyfloat \<Rightarrow> pyfloat" where
  "fadd (Finite a) (Finite b) = to_float (a + b)"
| "fadd NaN y = NaN"
| "fadd x NaN = NaN"
| "fadd PosInf NegInf = NaN"
| "fadd NegInf PosInf = NaN"
| "fadd PosInf y = PosInf"
| "fadd NegInf y = NegInf"
| "fadd (Finite a) y = y"

definition fsub :: "pyfloat \<Rightarrow> pyfloat \<Rightarrow> pyfloat" where
  "fsub x y = fadd x (fneg y)"

fun fmul :: "pyfloat \<Rightarrow> pyfloat \<Rightarrow> pyfloat" where
  "fmul (Finite a) (Finite b) = to_float (a * b)"
| "fmul NaN y = NaN"
| "fmul x NaN = NaN"
| "fmul x y = (if is_zero x \<or> is_zero y then NaN
               else signed_inf (is_negative x \<noteq> is_negative y))"

fun fdiv :: "pyfloat \<Rightarrow> pyfloat \<Rightarrow> error + pyfloat" where
  "fdiv x (Finite b) =
     (if b = 0 then Inl ZeroDivisionError
      else case x of
             Finite a \<Rightarrow> Inr (to_float (a / b))
           | NaN \<Rightarrow> Inr NaN
           | PosInf \<Rightarrow> Inr (signed_inf (b < 0))
           | NegInf \<Rightarrow> Inr (signed_inf (0 < b)))"
| "fdiv x NaN = Inr NaN"
| "fdiv (Finite a) y = Inr (Finite 0)"
| "fdiv x y = Inr NaN"

definition float_of_int :: "int \<Rightarrow> error + pyfloat" where
  "float_of_int n = checked_rounded (round_double (of_int n))"

definition int_true_div :: "int \<Rightarrow> int \<Rightarrow> error + pyfloat" where
  "int_true_div a b =
     (if b = 0 then Inl ZeroDivisionError
      else checked_rounded (round_double (of_int a / of_int b)))"

fun fpow2 :: "pyfloat \<Rightarrow> error + pyfloat" where
  "fpow2 (Finite a) = checked_rounded (round_double (a * a))"
| "fpow2 NaN = Inr NaN"
| "fpow2 x = Inr PosInf"

fun py_sqrt :: "pyfloat \<Rightarrow> error + pyfloat" where
  "py_sqrt (Finite a) = (if a < 0 then Inl ValueError else Inr (Finite (sqrt_double a)))"
| "py_sqrt PosInf = Inr PosInf"
| "py_sqrt NegInf = Inl ValueError"
| "py_sqrt NaN = Inr NaN"

fun fless :: "pyfloat \<Rightarrow> pyfloat \<Rightarrow> bool" where
  "fless (Finite a) (Finite b) = (a < b)"
| "fless NaN y = False"
| "fless x NaN = False"
| "fless PosInf y = False"
| "fless x PosInf = True"
| "fless x NegInf = False"
| "fless NegInf y = True"

definition py_max :: "pyfloat \<Rightarrow> pyfloat \<Rightarrow> pyfloat" where
  "py_max a b = (if fless a b then b else a)"

definition py_min :: "pyfloat \<Rightarrow> pyfloat \<Rightarrow> pyfloat" where
  "py_min a b = (if fless b a then b else a)"

fun py_int_of_float :: "pyfloat \<Rightarrow> error + int" where
  "py_int_of_float (Finite a) = Inr (if 0 \<le> a then \<lfloor>a\<rfloor> else \<lceil>a\<rceil>)"
| "py_int_of_float NaN = Inl ValueError"
| "py_int_of_float x = Inl OverflowError"

section \<open>The CTR aggregator\<close>

text \<open>
  \<^verbatim>\<open>wilson_interval(k, n, z=1.96)\<close>, statement by statement and operation by
  operation in Python's order of evaluation. \<open>k\<close> and \<open>n\<close> are Python integers (the
  dashboard passes two row counts), \<open>z\<close> is a float; \<open>z_default\<close> is the double that
  the literal \<^verbatim>\<open>1.96\<close> denotes. The bound names are the source's where it has
  one: \<open>zz\<close> is \<^verbatim>\<open>z**2\<close>, \<open>nf\<close>, \<open>n2\<close> and \<open>n4\<close> are \<open>n\<close>, \<open>2*n\<close> and \<open>4*n\<close>
  converted to float for the division, \<open>zzn\<close>, \<open>c\<close> and \<open>h\<close> are the three quotients of
  \<open>z\<close> squared.
\<close>

definition z_default :: pyfloat where
  "z_default = Finite (round_double (196 / 100))"

definition wilson_interval :: "int \<Rightarrow> int \<Rightarrow> pyfloat \<Rightarrow> error + (pyfloat \<times> pyfloat \<times> pyfloat)" where
  "wilson_interval k n z =
     (if n = 0 then Inr (Finite 0, Finite 0, Finite 0)
      else
        ebind (int_true_div k n) (\<lambda>phat.
        ebind (fpow2 z) (\<lambda>zz.
        ebind (float_of_int n) (\<lambda>nf.
        ebind (fdiv zz nf) (\<lambda>zzn.
        let denom = fadd (Finite 1) zzn in
        ebind (float_of_int (2 * n)) (\<lambda>n2.
        ebind (fdiv (fmul z z) n2) (\<lambda>c.
        ebind (fdiv (fadd phat c) denom) (\<lambda>center.
        ebind (float_of_int (4 * n)) (\<lambda>n4.
        ebind (fdiv (fmul z z) n4) (\<lambda>h.
        ebind (fdiv (fadd (fmul phat (fsub (Finite 1) phat)) h) nf) (\<lambda>radicand.
        ebind (py_sqrt radicand) (\<lambda>root.
        ebind (fdiv (fmul z root) denom) (\<lambda>half.
        Inr (phat,
             py_max (Finite 0) (fsub center half),
             py_min (Finite 1) (fadd center half)))))))))))))))"

subsection \<open>The same formula in exact arithmetic\<close>

text \<open>
  The formula of \<^verbatim>\<open>wilson_interval\<close> for \<open>n \<noteq> 0\<close>, read over the real numbers with
  no rounding. It is not the program; it tells what the program misses by rounding from
  what the formula itself does. \<open>wilson_radicand_exact\<close> is the argument of the square
  root.
\<close>

definition wilson_radicand_exact :: "real \<Rightarrow> real \<Rightarrow> real \<Rightarrow> real" where
  "wilson_radicand_exact k n z = (k / n * (1 - k / n) + z * z / (4 * n)) / n"

definition wilson_exact :: "real \<Rightarrow> real \<Rightarrow> real \<Rightarrow> real \<times> real \<times> real" where
  "wilson_exact k n z =
     (let phat = k / n;
          denom = 1 + z\<^sup>2 / n;
          center = (phat + z * z / (2 * n)) / denom;
          half = z * sqrt (wilson_radicand_exact k n z) / denom
      in (phat, max 0 (center - half), min 1 (center + half)))"

section \<open>The assignment engine\<close>

text \<open>
  \<^verbatim>\<open>assign_variant_and_placement(user_id)\<close> reads the module constants
  \<^verbatim>\<open>SECRET\<close>, \<^verbatim>\<open>VARIANTS\<close> and \<^verbatim>\<open>PLACEMENTS\<close>. The two lists are fixed in the
  source; the secret comes from the environment and is a parameter here. HMAC-SHA256 is
  the standard library's: it is the parameter \<open>hmac_sha256\<close>, a function from key and
  message to the digest bytes, and nothing is assumed of it but, where stated, the length
  of its result.

  A Python \<^verbatim>\<open>str\<close> is a sequence of code points, \<open>pystr\<close>; \<open>str_of\<close> writes an ASCII
  literal as one. \<open>encode\<close> is \<^verbatim>\<open>str.encode()\<close>, the strict UTF-8 encoding: it raises
  \<open>UnicodeEncodeError\<close> at a surrogate code point (\<open>0xD800\<close> to \<open>0xDFFF\<close>), which a
  \<^verbatim>\<open>str\<close> can hold and UTF-8 cannot express. A \<^verbatim>\<open>str\<close> holds no integer outside
  \<open>0\<close> to \<open>0x10FFFF\<close>; the model gives such an integer the same error. The key is encoded
  before the identifier, as the arguments of \<^verbatim>\<open>hmac.new\<close> are evaluated.

  \<open>hexdigest\<close> writes each byte as two lower-case hexadecimal digits. \<open>py_int16\<close> is
  \<^verbatim>\<open>int(s, 16)\<close> on strings of hexadecimal digits, of either case: the empty string
  raises \<open>ValueError\<close>, and so does here every string with another character (Python
  also reads a sign, a \<^verbatim>\<open>0x\<close> prefix, underscores and surrounding blanks, none of
  which a digest has). \<open>py_getitem\<close> is list indexing and \<open>py_mod\<close> is \<^verbatim>\<open>%\<close> on
  integers, which like \<open>mod\<close> takes the sign of the divisor.

  The source computes both buckets and both list elements by the same expression twice:
  \<open>bucket s\<close> is \<^verbatim>\<open>int(s, 16) / 0xFFFFFFFF\<close> and \<open>pick xs b\<close> is
  \<^verbatim>\<open>xs[int(b * len(xs)) % len(xs)]\<close>.
\<close>

type_synonym byte = "8 word"

definition VARIANTS :: "string list" where
  "VARIANTS = [''A'', ''B'', ''C'']"

definition PLACEMENTS :: "string list" where
  "PLACEMENTS = [''P1'', ''P2'', ''P3'']"

type_synonym pystr = "int list"

definition str_of :: "string \<Rightarrow> pystr" where
  "str_of s = map of_char s"

definition utf8_char :: "int \<Rightarrow> error + byte list" where
  "utf8_char c =
     (if c < 0 then Inl UnicodeEncodeError
      else if c < 128 then Inr [word_of_int c]
      else if c < 2048 then Inr [word_of_int (192 + c div 64), word_of_int (128 + c mod 64)]
      else if 55296 \<le> c \<and> c < 57344 then Inl UnicodeEncodeError
      else if c < 65536 then
        Inr [word_of_int (224 + c div 4096), word_of_int (128 + c div 64 mod 64),
             word_of_int (128 + c mod 64)]
      else if c < 1114112 then
        Inr [word_of_int (240 + c div 262144), word_of_int (128 + c div 4096 mod 64),
             word_of_int (128 + c div 64 mod 64), word_of_int (128 + c mod 64)]
      else Inl UnicodeEncodeError)"

fun encode :: "pystr \<Rightarrow> error + byte list" where
  "encode [] = Inr []"
| "encode (c # cs) =
     ebind (utf8_char c) (\<lambda>b.
     ebind (encode cs) (\<lambda>bs.
     Inr (b @ bs)))"

definition hexdigit :: "nat \<Rightarrow> char" where
  "hexdigit d = ''0123456789abcdef'' ! d"

definition hex_byte :: "byte \<Rightarrow> string" where
  "hex_byte b = [hexdigit (unat b div 16), hexdigit (unat b mod 16)]"

definition hexdigest :: "byte list \<Rightarrow> string" where
  "hexdigest bs = concat (map hex_byte bs)"

definition digit_of_code :: "int \<Rightarrow> int option" where
  "digit_of_code n =
     (if 48 \<le> n \<and> n \<le> 57 then Some (n - 48)
      else if 97 \<le> n \<and> n \<le> 102 then Some (n - 87)
      else if 65 \<le> n \<and> n \<le> 70 then Some (n - 55)
      else None)"

definition digit_value :: "char \<Rightarrow> int option" where
  "digit_value c = digit_of_code (int (of_char c))"

fun hex_value :: "int \<Rightarrow> string \<Rightarrow> error + int" where
  "hex_value acc [] = Inr acc"
| "hex_value acc (c # cs) =
     (case digit_value c of
        None \<Rightarrow> Inl ValueError
      | Some d \<Rightarrow> hex_value (16 * acc + d) cs)"

definition py_int16 :: "string \<Rightarrow> error + int" where
  "py_int16 s = (if s = [] then Inl ValueError else hex_value 0 s)"

definition len :: "'a list \<Rightarrow> int" where
  "len xs = int (length xs)"

definition py_mod :: "int \<Rightarrow> int \<Rightarrow> error + int" where
  "py_mod a b = (if b = 0 then Inl ZeroDivisionError else Inr (a mod b))"

definition py_getitem :: "'a list \<Rightarrow> int \<Rightarrow> error + 'a" where
  "py_getitem xs i =
     (if 0 \<le> i \<and> i < len xs then Inr (xs ! nat i)
      else if i < 0 \<and> 0 \<le> len xs + i then Inr (xs ! nat (len xs + i))
      else Inl IndexError)"

definition bucket :: "string \<Rightarrow> error + pyfloat" where
  "bucket s = ebind (py_int16 s) (\<lambda>x. int_true_div x 4294967295)"

definition pick :: "'a list \<Rightarrow> pyfloat \<Rightarrow> error + 'a" where
  "pick xs b =
     ebind (float_of_int (len xs)) (\<lambda>n.
     ebind (py_int_of_float (fmul b n)) (\<lambda>i.
     ebind (py_mod i (len xs)) (\<lambda>j.
     py_getitem xs j)))"

definition assign_variant_and_placement ::
    "(byte list \<Rightarrow> byte list \<Rightarrow> byte list) \<Rightarrow> pystr \<Rightarrow> pystr \<Rightarrow> error + (string \<times> string)" where
  "assign_variant_and_placement hmac_sha256 SECRET user_id =
     ebind (encode SECRET) (\<lambda>key.
     ebind (encode user_id) (\<lambda>msg.
     let digest = hexdigest (hmac_sha256 key msg) in
     ebind (bucket (take 8 digest)) (\<lambda>bucket1.
     ebind (bucket (take 8 (drop 8 digest))) (\<lambda>bucket2.
     ebind (pick VARIANTS bucket1) (\<lambda>v.
     ebind (pick PLACEMENTS bucket2) (\<lambda>p.
     Inr (v, p)))))))"

text \<open>
  For the proofs, lines 68 to 72 of the source as a function of the hexadecimal digest.
\<close>

definition cell_of_hexdigest :: "string \<Rightarrow> error + (string \<times> string)" where
  "cell_of_hexdigest digest =
     ebind (bucket (take 8 digest)) (\<lambda>bucket1.
     ebind (bucket (take 8 (drop 8 digest))) (\<lambda>bucket2.
     ebind (pick VARIANTS bucket1) (\<lambda>v.
     ebind (pick PLACEMENTS bucket2) (\<lambda>p.
     Inr (v, p)))))"

text \<open>
  What the result will be shown to depend on: \<open>digest_prefix\<close> is the first eight bytes
  of the digest, or the error of the encoding when there is no digest. \<open>encodable s\<close>
  says that \<^verbatim>\<open>s.encode()\<close> returns.
\<close>

definition digest_prefix ::
    "(byte list \<Rightarrow> byte list \<Rightarrow> byte list) \<Rightarrow> pystr \<Rightarrow> pystr \<Rightarrow> error + byte list" where
  "digest_prefix hmac_sha256 SECRET user_id =
     ebind (encode SECRET) (\<lambda>key.
     ebind (encode user_id) (\<lambda>msg.
     Inr (take 8 (hmac_sha256 key msg))))"

definition encodable :: "pystr \<Rightarrow> bool" where
  "encodable s = (case encode s of Inl e \<Rightarrow> False | Inr bs \<Rightarrow> True)"

subsection \<open>The algorithm as the specification words it\<close>

text \<open>
  The specification's reference algorithm, in exact arithmetic: the first four and the
  next four bytes of the digest are read as big-endian unsigned integers, each is divided
  by the largest value of that width, and the cell is
  \<open>VARIANTS[floor(bucket1 * Nv) mod Nv]\<close>, \<open>PLACEMENTS[floor(bucket2 * Np) mod Np]\<close>.
  \<open>spec_cell\<close> is that function of the digest; \<open>spec_assign\<close> hashes the encoded
  identifier under the encoded key first, and has no cell where there is nothing to hash.
\<close>

definition be_uint :: "byte list \<Rightarrow> int" where
  "be_uint bs = foldl (\<lambda>acc b. 256 * acc + uint b) 0 bs"





subsection \<open>A digest function for examples\<close>

text \<open>
  Where a statement needs some function in the place of HMAC-SHA256, \<open>constant_hmac d\<close>
  is the one that returns the digest \<open>d\<close> for every key and message.
\<close>

definition constant_hmac :: "byte list \<Rightarrow> byte list \<Rightarrow> byte list \<Rightarrow> byte list" where
  "constant_hmac d key msg = d"

section \<open>Properties of the rounding\<close>

subsection \<open>The binade of a positive rational\<close>

lemma pow2_less_iff: "(2::rat) powi a < 2 powi b \<longleftrightarrow> a < b"
proof
  assume l: "(2::rat) powi a < 2 powi b"
  show "a < b"
  proof (rule ccontr)
    assume "\<not> a < b"
    then have "b \<le> a" by simp
    then have "(2::rat) powi b \<le> 2 powi a"
      by (rule power_int_increasing) simp
    with l show False by simp
  qed
next
  assume "a < b"
  then show "(2::rat) powi a < 2 powi b"
    by (rule power_int_strict_increasing) simp
qed

lemma pow2_le_iff: "(2::rat) powi a \<le> 2 powi b \<longleftrightarrow> a \<le> b"
  using pow2_less_iff [of b a] by (simp add: not_less [symmetric])

lemma bitlen_pow_bounds:
  fixes p :: int
  assumes "0 < p"
  shows "(2::rat) powi (bitlen p - 1) \<le> of_int p" and "of_int p < (2::rat) powi (bitlen p)"
proof -
  from bitlen_bounds [OF assms]
  have a: "2 ^ nat (bitlen p - 1) \<le> p" and b: "p < 2 ^ nat (bitlen p)"
    by auto
  have pos: "0 < bitlen p"
    using assms bitlen_eq_zero_iff [of p] bitlen_nonneg [of p] by simp
  have "(of_int (2 ^ nat (bitlen p - 1)) :: rat) \<le> of_int p"
    using a by (simp only: of_int_le_iff)
  then show "(2::rat) powi (bitlen p - 1) \<le> of_int p"
    using pos by (simp add: power_int_def)
  have "(of_int p :: rat) < of_int (2 ^ nat (bitlen p))"
    using b by (simp only: of_int_less_iff)
  then show "of_int p < (2::rat) powi (bitlen p)"
    using pos by (simp add: power_int_def)
qed

lemma ilog2_bounds:
  assumes "0 < x"
  shows "2 powi (ilog2 x) \<le> x" and "x < 2 powi (ilog2 x + 1)"
proof -
  obtain p q where pq: "quotient_of x = (p, q)"
    by (cases "quotient_of x")
  have q: "0 < q"
    using pq by (rule quotient_of_denom_pos)
  have x: "x = of_int p / of_int q"
    using pq by (rule quotient_of_div)
  have p: "0 < p"
    using assms q x by (simp add: zero_less_divide_iff)
  define d where "d = bitlen p - bitlen q"
  have qr: "(0::rat) < of_int q"
    using q by simp
  have lo: "(2::rat) powi (d - 1) < x"
  proof -
    have "(2::rat) powi (d - 1) * of_int q < 2 powi (d - 1) * 2 powi (bitlen q)"
      using bitlen_pow_bounds(2) [OF q] by (simp add: mult_strict_left_mono)
    also have "\<dots> = 2 powi (bitlen p - 1)"
      by (simp add: d_def power_int_add [symmetric])
    also have "\<dots> \<le> of_int p"
      by (rule bitlen_pow_bounds(1) [OF p])
    finally show ?thesis
      using qr by (simp add: x pos_less_divide_eq)
  qed
  have hi: "x < (2::rat) powi (d + 1)"
  proof -
    have "of_int p < (2::rat) powi (bitlen p)"
      by (rule bitlen_pow_bounds(2) [OF p])
    also have "\<dots> = 2 powi (d + 1) * 2 powi (bitlen q - 1)"
      by (simp add: d_def power_int_add [symmetric])
    also have "\<dots> \<le> 2 powi (d + 1) * of_int q"
      using bitlen_pow_bounds(1) [OF q] by (simp add: mult_left_mono)
    finally show ?thesis
      using qr by (simp add: x pos_divide_less_eq)
  qed
  have il: "ilog2 x = (if x < 2 powi d then d - 1 else d)"
    by (simp add: ilog2_def pq ilog2_adjust_def d_def)
  show "2 powi (ilog2 x) \<le> x"
    using lo by (simp add: il)
  show "x < 2 powi (ilog2 x + 1)"
    using hi by (simp add: il)
qed

lemma ilog2_unique:
  assumes "2 powi e \<le> x" "x < 2 powi (e + 1)"
  shows "ilog2 x = e"
proof -
  have pos: "0 < x"
    using assms(1) by (rule less_le_trans [rotated]) simp
  note b = ilog2_bounds [OF pos]
  have "(2::rat) powi e < 2 powi (ilog2 x + 1)"
    using assms(1) b(2) by simp
  then have 1: "e < ilog2 x + 1"
    by (simp add: pow2_less_iff)
  have "(2::rat) powi (ilog2 x) < 2 powi (e + 1)"
    using assms(2) b(1) by simp
  then have 2: "ilog2 x < e + 1"
    by (simp add: pow2_less_iff)
  from 1 2 show ?thesis by simp
qed

lemma ilog2_mono:
  assumes "0 < x" "x \<le> y"
  shows "ilog2 x \<le> ilog2 y"
proof -
  have y: "0 < y" using assms by simp
  have "(2::rat) powi (ilog2 x) < 2 powi (ilog2 y + 1)"
    using ilog2_bounds(1) [OF assms(1)] ilog2_bounds(2) [OF y] assms(2) by simp
  then show ?thesis
    by (simp add: pow2_less_iff)
qed

lemma ilog2_less_iff:
  assumes "0 < x"
  shows "ilog2 x < e \<longleftrightarrow> x < 2 powi e"
proof
  assume "ilog2 x < e"
  then have "ilog2 x + 1 \<le> e" by simp
  then have "(2::rat) powi (ilog2 x + 1) \<le> 2 powi e"
    by (simp add: pow2_le_iff)
  with ilog2_bounds(2) [OF assms] show "x < 2 powi e" by simp
next
  assume "x < 2 powi e"
  with ilog2_bounds(1) [OF assms] have "(2::rat) powi (ilog2 x) < 2 powi e" by simp
  then show "ilog2 x < e"
    by (simp add: pow2_less_iff)
qed

subsection \<open>Rounding to the nearest integer, ties to even\<close>

lemma round_half_even_of_int [simp]: "round_half_even (of_int n) = n"
  by (simp add: round_half_even_def tie_even_def)

lemma round_half_even_numeral [simp]: "round_half_even (numeral n) = numeral n"
  using round_half_even_of_int [of "numeral n"] by simp

lemma round_half_even_cases:
  "round_half_even x = \<lfloor>x\<rfloor> \<or> round_half_even x = \<lfloor>x\<rfloor> + 1"
  by (simp add: round_half_even_def tie_even_def)

lemma round_half_even_ge_floor: "\<lfloor>x\<rfloor> \<le> round_half_even x"
  using round_half_even_cases [of x] by auto

lemma round_half_even_le_ceiling: "round_half_even x \<le> \<lfloor>x\<rfloor> + 1"
  using round_half_even_cases [of x] by auto

lemma tie_even_mono: "r \<le> s \<Longrightarrow> tie_even f r \<le> tie_even f s"
  by (simp add: tie_even_def)

lemma round_half_even_mono:
  assumes "x \<le> y"
  shows "round_half_even x \<le> round_half_even y"
proof (cases "\<lfloor>x\<rfloor> = \<lfloor>y\<rfloor>")
  case True
  have "x - of_int \<lfloor>x\<rfloor> \<le> y - of_int \<lfloor>x\<rfloor>"
    using assms by simp
  then show ?thesis
    unfolding round_half_even_def True [symmetric] by (rule tie_even_mono)
next
  case False
  have "\<lfloor>x\<rfloor> \<le> \<lfloor>y\<rfloor>"
    using assms by (rule floor_mono)
  with False have "\<lfloor>x\<rfloor> + 1 \<le> \<lfloor>y\<rfloor>"
    by simp
  with round_half_even_le_ceiling [of x] round_half_even_ge_floor [of y]
  show ?thesis by linarith
qed

lemma round_half_even_minus: "round_half_even (- x) = - round_half_even x"
proof (cases "x = of_int \<lfloor>x\<rfloor>")
  case True
  then obtain n where n: "x = of_int n" ..
  have "round_half_even (of_int (- n)) = - round_half_even (of_int n)"
    by (simp only: round_half_even_of_int)
  then show ?thesis
    by (simp only: n of_int_minus)
next
  case False
  have lt: "of_int \<lfloor>x\<rfloor> < x"
    using False of_int_floor_le [of x] by (metis less_le)
  have up: "x < of_int \<lfloor>x\<rfloor> + 1"
    by linarith
  have fl: "\<lfloor>- x\<rfloor> = - \<lfloor>x\<rfloor> - 1"
    using lt up by (intro floor_unique) simp_all
  show ?thesis
    using lt by (auto simp add: round_half_even_def tie_even_def fl)
qed

lemma round_half_even_error: "\<bar>of_int (round_half_even x) - x\<bar> \<le> 1 / 2"
proof -
  have "of_int \<lfloor>x\<rfloor> \<le> x" "x < of_int \<lfloor>x\<rfloor> + 1"
    by linarith+
  then show ?thesis
    by (auto simp add: round_half_even_def tie_even_def abs_le_iff)
qed

subsection \<open>Rounding to a double\<close>

lemma round_double_0 [simp]: "round_double 0 = 0"
  by (simp add: round_double_def)

lemma round_to_ulp_minus: "round_to_ulp u (- x) = - round_to_ulp u x"
  by (simp add: round_to_ulp_def round_half_even_minus)

lemma round_double_minus: "round_double (- x) = - round_double x"
  by (simp add: round_double_def double_exponent_def round_to_ulp_minus)

lemma round_to_ulp_mono:
  assumes "0 < u" "x \<le> y"
  shows "round_to_ulp u x \<le> round_to_ulp u y"
proof -
  have "x / u \<le> y / u"
    using assms by (simp add: divide_right_mono)
  then have "round_half_even (x / u) \<le> round_half_even (y / u)"
    by (rule round_half_even_mono)
  then have "(of_int (round_half_even (x / u)) :: rat) \<le> of_int (round_half_even (y / u))"
    by simp
  then show ?thesis
    using assms(1) by (simp add: round_to_ulp_def mult_right_mono)
qed

lemma pow2_pos [simp]: "(0::rat) < 2 powi k"
  by (simp add: zero_less_power_int)

lemma pow2_split: "(2::rat) powi (e + 1) = 2 ^ 53 * 2 powi (e - 52)"
  using power_int_add [of "2::rat" 53 "e - 52"] by (simp add: add.commute)

lemma pow2_split': "(2::rat) powi e = 2 ^ 52 * 2 powi (e - 52)"
  using power_int_add [of "2::rat" 52 "e - 52"] by simp

lemma double_exponent_upper:
  assumes "0 < x"
  shows "x < 2 powi (double_exponent x + 1)"
proof -
  have "ilog2 x + 1 \<le> double_exponent x + 1"
    using assms by (simp add: double_exponent_def)
  then have "(2::rat) powi (ilog2 x + 1) \<le> 2 powi (double_exponent x + 1)"
    by (simp only: pow2_le_iff)
  with ilog2_bounds(2) [OF assms] show ?thesis by simp
qed

lemma round_double_pos_eq:
  "0 < x \<Longrightarrow> round_double x = round_to_ulp (2 powi (double_exponent x - 52)) x"
  by (simp add: round_double_def)

lemma round_double_nonneg:
  assumes "0 \<le> x"
  shows "0 \<le> round_double x"
proof (cases "x = 0")
  case True
  then show ?thesis by simp
next
  case False
  with assms have pos: "0 < x" by simp
  have "round_to_ulp (2 powi (double_exponent x - 52)) 0 \<le> round_double x"
    unfolding round_double_pos_eq [OF pos] using assms by (intro round_to_ulp_mono) simp_all
  then show ?thesis
    by (simp add: round_to_ulp_def round_half_even_def tie_even_def)
qed

lemma round_double_le_binade:
  assumes "0 < x"
  shows "round_double x \<le> 2 powi (double_exponent x + 1)"
proof -
  define u :: rat where "u = 2 powi (double_exponent x - 52)"
  have u: "0 < u" by (simp add: u_def)
  have "x \<le> 2 ^ 53 * u"
    using double_exponent_upper [OF assms] by (simp add: u_def pow2_split)
  then have "x / u \<le> of_int (2 ^ 53)"
    using u by (simp add: pos_divide_le_eq)
  then have "round_half_even (x / u) \<le> 2 ^ 53"
    using round_half_even_mono [of "x / u" "of_int (2 ^ 53)"] by simp
  then have "(of_int (round_half_even (x / u)) :: rat) \<le> of_int (2 ^ 53)"
    by (simp only: of_int_le_iff)
  then have "of_int (round_half_even (x / u)) * u \<le> 2 ^ 53 * u"
    using u by (simp add: mult_right_mono)
  then show ?thesis
    by (simp add: round_double_pos_eq [OF assms] round_to_ulp_def u_def [symmetric] pow2_split)
qed

lemma round_double_ge_binade:
  assumes "0 < x" "- 1022 \<le> ilog2 x"
  shows "2 powi (double_exponent x) \<le> round_double x"
proof -
  define u :: rat where "u = 2 powi (double_exponent x - 52)"
  have u: "0 < u" by (simp add: u_def)
  have e: "double_exponent x = ilog2 x"
    using assms by (simp add: double_exponent_def)
  have "2 ^ 52 * u \<le> x"
    using ilog2_bounds(1) [OF assms(1)] pow2_split' [of "ilog2 x"] by (simp add: u_def e)
  then have "of_int (2 ^ 52) \<le> x / u"
    using u by (simp add: pos_le_divide_eq)
  then have "2 ^ 52 \<le> round_half_even (x / u)"
    using round_half_even_mono [of "of_int (2 ^ 52)" "x / u"] by simp
  then have "(of_int (2 ^ 52) :: rat) \<le> of_int (round_half_even (x / u))"
    by (simp only: of_int_le_iff)
  then have "2 ^ 52 * u \<le> of_int (round_half_even (x / u)) * u"
    using u by (simp add: mult_right_mono)
  then show ?thesis
    by (simp add: round_double_pos_eq [OF assms(1)] round_to_ulp_def u_def [symmetric]
        pow2_split' [of "double_exponent x"])
qed

lemma round_double_mono_pos:
  assumes "0 < x" "x \<le> y"
  shows "round_double x \<le> round_double y"
proof -
  have y: "0 < y" using assms by simp
  have le: "double_exponent x \<le> double_exponent y"
    using ilog2_mono [OF assms] assms by (simp add: double_exponent_def)
  show ?thesis
  proof (cases "double_exponent x = double_exponent y")
    case True
    show ?thesis
      unfolding round_double_pos_eq [OF assms(1)] round_double_pos_eq [OF y] True
      using assms(2) by (intro round_to_ulp_mono) simp_all
  next
    case False
    with le have lt: "double_exponent x + 1 \<le> double_exponent y" by simp
    then have "- 1022 \<le> ilog2 y"
      using y by (simp add: double_exponent_def split: if_splits)
    from round_double_ge_binade [OF y this]
    have "2 powi (double_exponent y) \<le> round_double y" .
    moreover have "(2::rat) powi (double_exponent x + 1) \<le> 2 powi (double_exponent y)"
      using lt by (simp only: pow2_le_iff)
    ultimately show ?thesis
      using round_double_le_binade [OF assms(1)] by simp
  qed
qed

lemma round_double_nonpos: "x \<le> 0 \<Longrightarrow> round_double x \<le> 0"
  using round_double_nonneg [of "- x"] by (simp add: round_double_minus)

lemma round_double_mono:
  assumes "x \<le> y"
  shows "round_double x \<le> round_double y"
proof -
  consider "0 < x" | "y < 0" | "x \<le> 0" "0 \<le> y"
    by linarith
  then show ?thesis
  proof cases
    case 1
    then show ?thesis using assms by (rule round_double_mono_pos)
  next
    case 2
    then have "0 < - y" "- y \<le> - x" using assms by simp_all
    then have "round_double (- y) \<le> round_double (- x)"
      by (rule round_double_mono_pos)
    then show ?thesis by (simp add: round_double_minus)
  next
    case 3
    then show ?thesis
      using round_double_nonpos [of x] round_double_nonneg [of y] by simp
  qed
qed

text \<open>
  The rounding is to a nearest double: the result is within half a unit in the last
  place of its argument.
\<close>

lemma round_double_error:
  "\<bar>round_double x - x\<bar> \<le> 2 powi (double_exponent x - 53)"
proof (cases "x = 0")
  case True
  then show ?thesis by simp
next
  case False
  define u :: rat where "u = 2 powi (double_exponent x - 52)"
  have u: "0 < u" by (simp add: u_def)
  have half: "u / 2 = 2 powi (double_exponent x - 53)"
    using power_int_add [of "2::rat" "double_exponent x - 53" 1] by (simp add: u_def)
  have "round_double x - x = (of_int (round_half_even (x / u)) - x / u) * u"
    using False u by (simp add: round_double_def round_to_ulp_def u_def [symmetric] algebra_simps)
  then have "\<bar>round_double x - x\<bar> = \<bar>of_int (round_half_even (x / u)) - x / u\<bar> * u"
    using u by (simp add: abs_mult)
  also have "\<dots> \<le> 1 / 2 * u"
    using u round_half_even_error [of "x / u"] by (intro mult_right_mono) simp_all
  finally show ?thesis
    using half by simp
qed

subsection \<open>Doubles are fixed points of the rounding\<close>

lemma round_double_exact_pos:
  assumes m: "0 < m" "m < 2 ^ 53" and k: "- 1074 \<le> k"
  shows "round_double (of_int m * 2 powi k) = of_int m * 2 powi k"
proof -
  define x :: rat where "x = of_int m * 2 powi k"
  have pos: "0 < x"
    using m(1) by (simp add: x_def)
  have "of_int m < (2::rat) powi 53"
    using m(2) of_int_less_iff [of m "2 ^ 53", where ?'a = rat] by simp
  then have "x < 2 powi 53 * 2 powi k"
    by (simp add: x_def)
  also have "\<dots> = 2 powi (53 + k)"
    by (rule power_int_add [symmetric]) simp
  finally have "ilog2 x < 53 + k"
    by (simp only: ilog2_less_iff [OF pos])
  then have e: "double_exponent x \<le> 52 + k"
    using k pos by (simp add: double_exponent_def)
  define j where "j = nat (k - (double_exponent x - 52))"
  have j: "int j = k - (double_exponent x - 52)"
    using e by (simp add: j_def)
  have "x / 2 powi (double_exponent x - 52) = of_int m * 2 powi (k - (double_exponent x - 52))"
    by (simp add: x_def power_int_diff)
  also have "\<dots> = of_int (m * 2 ^ j)"
    by (simp add: j [symmetric])
  finally have "round_half_even (x / 2 powi (double_exponent x - 52)) = m * 2 ^ j"
    by (simp only: round_half_even_of_int)
  then have "round_double x = of_int (m * 2 ^ j) * 2 powi (double_exponent x - 52)"
    by (simp add: round_double_pos_eq [OF pos] round_to_ulp_def)
  also have "\<dots> = of_int m * (2 powi (int j) * 2 powi (double_exponent x - 52))"
    by simp
  also have "2 powi (int j) * 2 powi (double_exponent x - 52) = (2::rat) powi k"
    unfolding j by (simp add: power_int_add [symmetric])
  finally show ?thesis
    by (simp add: x_def)
qed

lemma round_double_exact:
  assumes "\<bar>m\<bar> < 2 ^ 53" "- 1074 \<le> k"
  shows "round_double (of_int m * 2 powi k) = of_int m * 2 powi k"
proof -
  consider "0 < m" | "m = 0" | "m < 0" by linarith
  then show ?thesis
  proof cases
    case 1
    then show ?thesis using assms by (intro round_double_exact_pos) simp_all
  next
    case 2
    then show ?thesis by simp
  next
    case 3
    then have "round_double (of_int (- m) * 2 powi k) = of_int (- m) * 2 powi k"
      using assms by (intro round_double_exact_pos) simp_all
    then show ?thesis
      using round_double_minus [of "of_int m * 2 powi k"] by simp
  qed
qed

lemma round_double_of_int:
  "\<bar>m\<bar> < 2 ^ 53 \<Longrightarrow> round_double (of_int m) = of_int m"
  using round_double_exact [of m 0] by simp

lemma round_double_pow2: "- 1074 \<le> k \<Longrightarrow> round_double (2 powi k) = 2 powi k"
  using round_double_exact [of 1 k] by simp

lemma round_double_1 [simp]: "round_double 1 = 1"
  using round_double_of_int [of 1] by simp

lemma round_double_le:
  "x \<le> c \<Longrightarrow> round_double c = c \<Longrightarrow> round_double x \<le> c"
  using round_double_mono [of x c] by simp

lemma round_double_ge:
  "c \<le> x \<Longrightarrow> round_double c = c \<Longrightarrow> c \<le> round_double x"
  using round_double_mono [of c x] by simp

lemma round_double_le_pow2:
  "x \<le> 2 powi k \<Longrightarrow> - 1074 \<le> k \<Longrightarrow> round_double x \<le> 2 powi k"
  by (rule round_double_le) (simp_all add: round_double_pow2)

subsection \<open>Results that stay in range\<close>

lemma overflows_iff: "overflows r \<longleftrightarrow> 2 powi 1024 \<le> \<bar>r\<bar>"
proof (cases "r = 0")
  case True
  then show ?thesis by (simp add: overflows_def not_le)
next
  case False
  then have pos: "0 < \<bar>r\<bar>" by simp
  have "\<not> overflows r \<longleftrightarrow> ilog2 \<bar>r\<bar> < 1024"
    using False by (simp add: overflows_def not_le)
  also have "\<dots> \<longleftrightarrow> \<bar>r\<bar> < 2 powi 1024"
    by (rule ilog2_less_iff [OF pos])
  finally show ?thesis by (simp add: not_le [symmetric])
qed

lemma not_overflows:
  assumes "\<bar>r\<bar> \<le> 2 powi k" "k < 1024"
  shows "\<not> overflows r"
proof -
  have "(2::rat) powi k < 2 powi 1024"
    using assms(2) by (simp only: pow2_less_iff)
  with assms(1) show ?thesis
    by (simp add: overflows_iff not_le)
qed

lemma to_float_Finite:
  assumes "\<bar>round_double x\<bar> \<le> 2 powi k" "k < 1024"
  shows "to_float x = Finite (round_double x)"
  using not_overflows [OF assms] by (simp add: to_float_def to_float_rounded_def)

lemma checked_rounded_Finite:
  assumes "\<bar>r\<bar> \<le> 2 powi k" "k < 1024"
  shows "checked_rounded r = Inr (Finite r)"
  using not_overflows [OF assms] by (simp add: checked_rounded_def)

lemma round_double_abs_le_pow2:
  assumes "\<bar>x\<bar> \<le> 2 powi k" "- 1074 \<le> k"
  shows "\<bar>round_double x\<bar> \<le> 2 powi k"
proof -
  have "round_double x \<le> 2 powi k"
    using assms by (intro round_double_le_pow2) simp_all
  moreover have "round_double (- x) \<le> 2 powi k"
    using assms by (intro round_double_le_pow2) simp_all
  ultimately show ?thesis
    by (simp add: round_double_minus abs_le_iff)
qed

subsection \<open>The square root\<close>

lemma isqrt_nonpos [simp]: "n \<le> 0 \<Longrightarrow> isqrt n = 0"
  by (subst isqrt.simps) simp

lemma isqrt_pos: "0 < n \<Longrightarrow> isqrt n = isqrt_step n (isqrt (n div 4))"
  by (subst isqrt.simps) simp

lemma isqrt_nonneg: "0 \<le> isqrt n"
proof (induction n rule: isqrt.induct)
  case (1 n)
  show ?case
  proof (cases "n \<le> 0")
    case True
    then show ?thesis by simp
  next
    case False
    with 1 have "0 \<le> isqrt (n div 4)" by simp
    then show ?thesis
      using False by (simp add: isqrt_pos isqrt_step_def)
  qed
qed

lemma isqrt_square_le: "0 \<le> n \<Longrightarrow> isqrt n * isqrt n \<le> n"
proof (induction n rule: isqrt.induct)
  case (1 n)
  show ?case
  proof (cases "n \<le> 0")
    case True
    then show ?thesis using "1.prems" by simp
  next
    case False
    with 1 have ih: "isqrt (n div 4) * isqrt (n div 4) \<le> n div 4" by simp
    have "4 * (n div 4) \<le> n" by simp
    with ih have "(2 * isqrt (n div 4)) * (2 * isqrt (n div 4)) \<le> n" by simp
    then show ?thesis
      using False by (simp add: isqrt_pos isqrt_step_def)
  qed
qed

lemma isqrt_less:
  assumes "0 \<le> n" "n < b * b" "0 \<le> b"
  shows "isqrt n < b"
proof (rule ccontr)
  assume "\<not> isqrt n < b"
  then have "b \<le> isqrt n" by simp
  then have "b * b \<le> isqrt n * isqrt n"
    using assms(3) by (intro mult_mono) simp_all
  with isqrt_square_le [OF assms(1)] assms(2) show False by simp
qed

lemma sqrt_round_cases: "sqrt_round y m = m \<or> sqrt_round y m = m + 1"
  by (simp add: sqrt_round_def)

lemma sqrt_double_nonneg: "0 \<le> sqrt_double x"
proof (cases "x \<le> 0")
  case True
  then show ?thesis by (simp add: sqrt_double_def)
next
  case False
  define u :: rat where "u = 2 powi (ilog2 x div 2 - 52)"
  have "0 \<le> sqrt_round (x / (u * u)) (isqrt \<lfloor>x / (u * u)\<rfloor>)"
    using sqrt_round_cases [of "x / (u * u)" "isqrt \<lfloor>x / (u * u)\<rfloor>"]
      isqrt_nonneg [of "\<lfloor>x / (u * u)\<rfloor>"] by auto
  then show ?thesis
    using False by (simp add: sqrt_double_def sqrt_to_ulp_def u_def)
qed

lemma sqrt_double_le_binade:
  assumes "0 < x"
  shows "sqrt_double x \<le> 2 powi (ilog2 x div 2 + 1)"
proof -
  define e where "e = ilog2 x div 2"
  define u :: rat where "u = 2 powi (e - 52)"
  define y where "y = x / (u * u)"
  have u: "0 < u" by (simp add: u_def)
  have uu: "u * u = 2 powi (2 * e - 104)"
    using power_int_add [of "2::rat" "e - 52" "e - 52"] by (simp add: u_def)
  have "ilog2 x + 1 \<le> 2 * e + 2"
    unfolding e_def by linarith
  then have "(2::rat) powi (ilog2 x + 1) \<le> 2 powi (2 * e + 2)"
    by (simp only: pow2_le_iff)
  with ilog2_bounds(2) [OF assms] have "x < 2 powi (2 * e + 2)" by simp
  also have "\<dots> = 2 powi 106 * (u * u)"
    using power_int_add [of "2::rat" 106 "2 * e - 104"] by (simp add: uu add.commute)
  finally have ylt: "y < 2 powi 106"
    using u by (simp add: y_def pos_divide_less_eq)
  have y0: "0 \<le> y"
    using assms u by (simp add: y_def)
  have "\<lfloor>y\<rfloor> < 2 ^ 106"
    using ylt by (simp add: floor_less_iff)
  then have "\<lfloor>y\<rfloor> < 2 ^ 53 * (2 ^ 53 :: int)" by simp
  moreover have "0 \<le> \<lfloor>y\<rfloor>" using y0 by simp
  ultimately have "isqrt \<lfloor>y\<rfloor> < 2 ^ 53"
    by (intro isqrt_less) simp_all
  then have "sqrt_round y (isqrt \<lfloor>y\<rfloor>) \<le> 2 ^ 53"
    using sqrt_round_cases [of y "isqrt \<lfloor>y\<rfloor>"] by auto
  then have "(of_int (sqrt_round y (isqrt \<lfloor>y\<rfloor>)) :: rat) \<le> of_int (2 ^ 53)"
    by (simp only: of_int_le_iff)
  then have "of_int (sqrt_round y (isqrt \<lfloor>y\<rfloor>)) * u \<le> 2 ^ 53 * u"
    using u by (simp add: mult_right_mono)
  also have "2 ^ 53 * u = 2 powi (e + 1)"
    using pow2_split [of e] by (simp add: u_def)
  finally show ?thesis
    using assms by (simp add: sqrt_double_def sqrt_to_ulp_def e_def [symmetric] u_def [symmetric] y_def [symmetric])
qed

lemma sqrt_double_le_4:
  assumes "0 \<le> x" "x \<le> 5"
  shows "sqrt_double x \<le> 4"
proof (cases "x = 0")
  case True
  then show ?thesis by (simp add: sqrt_double_def)
next
  case False
  with assms have pos: "0 < x" by simp
  have "x < 2 powi 3" using assms by simp
  then have "ilog2 x < 3" by (simp only: ilog2_less_iff [OF pos])
  then have "ilog2 x div 2 + 1 \<le> 2" by linarith
  then have "(2::rat) powi (ilog2 x div 2 + 1) \<le> 2 powi 2"
    by (simp only: pow2_le_iff)
  with sqrt_double_le_binade [OF pos] show ?thesis by simp
qed

subsection \<open>Operations on finite doubles\<close>

lemma in_range_Finite:
  assumes "0 \<le> x" "x \<le> of_int c" "c < 2 ^ 53"
  shows "to_float x = Finite (round_double x)"
    and "checked_rounded (round_double x) = Inr (Finite (round_double x))"
    and "0 \<le> round_double x"
    and "round_double x \<le> of_int c"
proof -
  have c0: "0 \<le> c"
    using assms(1,2) by (simp add: of_int_0_le_iff [symmetric] del: of_int_0_le_iff)
  then have "round_double (of_int c) = of_int c"
    using assms(3) by (intro round_double_of_int) simp
  with assms(2) show le: "round_double x \<le> of_int c"
    by (rule round_double_le)
  show ge: "0 \<le> round_double x"
    using assms(1) by (rule round_double_nonneg)
  have "c \<le> 2 ^ 53"
    using assms(3) by simp
  then have "(of_int c :: rat) \<le> of_int (2 ^ 53)"
    by (simp only: of_int_le_iff)
  then have b: "\<bar>round_double x\<bar> \<le> 2 powi 53"
    using le ge by simp
  show "to_float x = Finite (round_double x)"
    using b by (rule to_float_Finite) simp
  show "checked_rounded (round_double x) = Inr (Finite (round_double x))"
    using b by (rule checked_rounded_Finite) simp
qed

lemma abs_range_Finite:
  assumes "\<bar>x\<bar> \<le> of_int c" "c < 2 ^ 53"
  shows "to_float x = Finite (round_double x)"
proof -
  have "\<bar>x\<bar> \<le> 2 powi 53"
  proof -
    have "c \<le> 2 ^ 53"
      using assms(2) by simp
    then have "(of_int c :: rat) \<le> of_int (2 ^ 53)"
      by (simp only: of_int_le_iff)
    with assms(1) show ?thesis by simp
  qed
  then have "\<bar>round_double x\<bar> \<le> 2 powi 53"
    by (rule round_double_abs_le_pow2) simp
  then show ?thesis
    by (rule to_float_Finite) simp
qed

lemma float_of_int_Finite:
  assumes "0 < n" "n \<le> 2 ^ 1023"
  shows "float_of_int n = Inr (Finite (round_double (of_int n)))"
    and "1 \<le> round_double (of_int n)"
proof -
  have "(of_int n :: rat) \<le> of_int (2 ^ 1023)"
    using assms(2) by (simp only: of_int_le_iff)
  then have "(of_int n :: rat) \<le> 2 powi 1023"
    by simp
  then have le: "round_double (of_int n) \<le> 2 powi 1023"
    by (rule round_double_le_pow2) simp
  have "(1::rat) \<le> of_int n"
    using assms(1) by simp
  then show ge: "1 \<le> round_double (of_int n)"
    by (rule round_double_ge) simp
  have "\<bar>round_double (of_int n)\<bar> \<le> 2 powi 1023"
    using le ge by simp
  then have "checked_rounded (round_double (of_int n)) = Inr (Finite (round_double (of_int n)))"
    by (rule checked_rounded_Finite) simp
  then show "float_of_int n = Inr (Finite (round_double (of_int n)))"
    by (simp add: float_of_int_def)
qed

lemma fsub_Finite: "fsub (Finite a) (Finite b) = to_float (a - b)"
  by (simp add: fsub_def)

lemma py_max_Finite: "py_max (Finite a) (Finite b) = Finite (max a b)"
  by (simp add: py_max_def max_def)

lemma py_min_Finite: "py_min (Finite a) (Finite b) = Finite (min a b)"
  by (simp add: py_min_def min_def)

lemma quotient_le_numerator:
  fixes a b :: rat
  assumes "0 \<le> a" "1 \<le> b"
  shows "0 \<le> a / b" and "a / b \<le> a"
proof -
  show "0 \<le> a / b" using assms by simp
  have "a / b \<le> a / 1"
    using assms by (intro divide_left_mono) simp_all
  then show "a / b \<le> a" by simp
qed

subsection \<open>Rules for evaluating the rounding at a given number\<close>

lemma floor_rat_numeral:
  "\<lfloor>(numeral a :: rat) / numeral b\<rfloor> = numeral a div numeral b"
  using floor_divide_of_int_eq [of "numeral a" "numeral b", where ?'a = rat] by simp

lemma floor_rat_neg_numeral:
  "\<lfloor>- ((numeral a :: rat) / numeral b)\<rfloor> = - numeral a div numeral b"
  using floor_divide_of_int_eq [of "- numeral a" "numeral b", where ?'a = rat] by simp

lemma round_double_eq:
  assumes "2 powi e \<le> \<bar>x\<bar>" "\<bar>x\<bar> < 2 powi (e + 1)" "- 1022 \<le> e"
    and "2 powi (e - 52) = u" "round_half_even (x / u) = m"
  shows "round_double x = of_int m * u"
proof -
  have "ilog2 \<bar>x\<bar> = e"
    using assms(1,2) by (rule ilog2_unique)
  then have e: "double_exponent x = e"
    using assms(3) by (simp add: double_exponent_def)
  have "0 < \<bar>x\<bar>"
    using pow2_pos assms(1) by (rule less_le_trans)
  then have "x \<noteq> 0"
    by simp
  then show ?thesis
    using e assms(4,5) by (simp add: round_double_def round_to_ulp_def)
qed

lemma fits_double:
  assumes "\<bar>r\<bar> \<le> 2 ^ 64"
  shows "to_float_rounded r = Finite r" "checked_rounded r = Inr (Finite r)"
proof -
  have "\<bar>r\<bar> \<le> 2 powi 64" using assms by simp
  then have "\<not> overflows r"
    by (rule not_overflows) simp
  then show "to_float_rounded r = Finite r" "checked_rounded r = Inr (Finite r)"
    by (simp_all add: to_float_rounded_def checked_rounded_def)
qed

lemma isqrt_upper: "0 \<le> n \<Longrightarrow> n < (isqrt n + 1) * (isqrt n + 1)"
proof (induction n rule: isqrt.induct)
  case (1 n)
  show ?case
  proof (cases "n \<le> 0")
    case True
    then show ?thesis using "1.prems" by simp
  next
    case False
    define s where "s = isqrt (n div 4)"
    from False 1 have "n div 4 < (s + 1) * (s + 1)"
      by (simp add: s_def)
    then have "n div 4 + 1 \<le> (s + 1) * (s + 1)" by simp
    then have "4 * (n div 4) + 4 \<le> 4 * ((s + 1) * (s + 1))" by simp
    moreover have "n < 4 * (n div 4) + 4"
      by (simp add: zdiv_mono1 div_less_iff_less_mult)  
    ultimately have up: "n < (2 * s + 1 + 1) * (2 * s + 1 + 1)"
      by (simp add: algebra_simps)
    have "isqrt n = isqrt_step n s"
      using False by (simp add: isqrt_pos s_def)
    then show ?thesis
      using up by (cases "(2 * s + 1) * (2 * s + 1) \<le> n") (simp_all add: isqrt_step_def not_le)
  qed
qed

lemma isqrt_unique:
  assumes "0 \<le> m" "m * m \<le> n" "n < (m + 1) * (m + 1)"
  shows "isqrt n = m"
proof -
  have n: "0 \<le> n"
    using assms(2) zero_le_square [of m] by linarith
  have a: "isqrt n < m + 1"
    using n assms(3,1) by (intro isqrt_less) simp_all
  have "m < isqrt n + 1"
  proof (rule ccontr)
    assume "\<not> m < isqrt n + 1"
    then have "isqrt n + 1 \<le> m" by simp
    then have "(isqrt n + 1) * (isqrt n + 1) \<le> m * m"
      using isqrt_nonneg [of n] by (intro mult_mono) simp_all
    with isqrt_upper [OF n] assms(2) show False by simp
  qed
  with a show ?thesis by simp
qed

lemma sqrt_double_eq:
  assumes "2 powi (2 * e) \<le> x" "x < 2 powi (2 * e + 2)"
    and "2 powi (e - 52) = u" "\<lfloor>x / (u * u)\<rfloor> = n"
    and "0 \<le> m" "m * m \<le> n" "n < (m + 1) * (m + 1)"
    and "sqrt_round (x / (u * u)) m = r"
  shows "sqrt_double x = of_int r * u"
proof -
  have pos: "0 < x"
    using assms(1) pow2_pos [of "2 * e"] by linarith
  have "ilog2 x < 2 * e + 2" "\<not> ilog2 x < 2 * e"
    using assms(1,2) by (simp_all add: ilog2_less_iff [OF pos] not_less)
  then have "ilog2 x div 2 = e"
    by linarith
  moreover have "isqrt n = m"
    using assms(5-7) by (rule isqrt_unique)
  ultimately show ?thesis
    using pos assms(3,4,8) by (simp add: sqrt_double_def sqrt_to_ulp_def)
qed

section \<open>The aggregator on counts with clicks within impressions\<close>

text \<open>
  With \<open>0 \<le> k \<le> n\<close> every intermediate result of \<open>wilson_interval\<close> is a finite
  double of known sign and size, so no operation raises, and the three results are the
  rounded quotient and the two clamped bounds.
\<close>

lemma wilson_interval_in_range:
  assumes k: "0 \<le> k" "k \<le> n" and n: "0 < n" "n \<le> 2 ^ 1021" and z: "0 \<le> z" "z \<le> 2"
  shows "\<exists>p l u. wilson_interval k n (Finite z) = Inr (Finite p, Finite l, Finite u)
           \<and> p = round_double (of_int k / of_int n)
           \<and> 0 \<le> p \<and> p \<le> 1 \<and> 0 \<le> l \<and> l \<le> u \<and> u \<le> 1"
proof -
  have nz: "(n = 0) = False" using n by simp
  have nr: "(0::rat) < of_int n" using n by simp
  \<comment> \<open>\<open>phat = k / n\<close>\<close>
  define p where "p = round_double (of_int k / of_int n)"
  have "(0::rat) \<le> of_int k / of_int n" "(of_int k :: rat) / of_int n \<le> of_int 1"
    using k nr by simp_all
  note tp = in_range_Finite [OF this, folded p_def]
  have p: "0 \<le> p" "p \<le> 1" using tp(3,4) by simp_all
  have e_p: "int_true_div k n = Inr (Finite p)"
    using tp(2) n by (simp add: int_true_div_def p_def)
  \<comment> \<open>\<open>z ** 2\<close> and \<open>z * z\<close>\<close>
  define zz where "zz = round_double (z * z)"
  have "z * z \<le> 2 * 2" using z by (intro mult_mono) simp_all
  then have "0 \<le> z * z" "z * z \<le> of_int 4" using z by simp_all
  note tzz = in_range_Finite [OF this, folded zz_def]
  have zz: "0 \<le> zz" "zz \<le> 4" using tzz(3,4) by simp_all
  have e_zz: "fpow2 (Finite z) = Inr (Finite zz)"
    using tzz(2) by (simp add: zz_def)
  have e_zmul: "fmul (Finite z) (Finite z) = Finite zz"
    using tzz(1) by simp
  \<comment> \<open>the conversions of \<open>n\<close>, \<open>2 * n\<close> and \<open>4 * n\<close>\<close>
  define nf where "nf = round_double (of_int n)"
  define n2 where "n2 = round_double (of_int (2 * n))"
  define n4 where "n4 = round_double (of_int (4 * n))"
  have b1: "n \<le> 2 ^ 1023" using n(2) by (rule order_trans) simp
  have b2: "2 * n \<le> 2 ^ 1023" using n(2) by simp
  have b4: "4 * n \<le> 2 ^ 1023" using n(2) by simp
  have e_nf: "float_of_int n = Inr (Finite nf)" and nf: "1 \<le> nf"
    using float_of_int_Finite [OF n(1) b1] by (simp_all add: nf_def)
  have e_n2: "float_of_int (2 * n) = Inr (Finite n2)" and n2: "1 \<le> n2"
    using float_of_int_Finite [OF _ b2] n(1) by (simp_all add: n2_def)
  have e_n4: "float_of_int (4 * n) = Inr (Finite n4)" and n4: "1 \<le> n4"
    using float_of_int_Finite [OF _ b4] n(1) by (simp_all add: n4_def)
  have nf_n2: "nf \<le> n2"
    unfolding nf_def n2_def using n(1) by (intro round_double_mono) simp
  \<comment> \<open>\<open>denom = 1 + z ** 2 / n\<close>\<close>
  define zzn where "zzn = round_double (zz / nf)"
  have "zz / nf \<le> of_int 4"
    using quotient_le_numerator(2) [OF zz(1) nf] zz(2) by simp
  note tzzn = in_range_Finite [OF quotient_le_numerator(1) [OF zz(1) nf] this, folded zzn_def]
  have zzn: "0 \<le> zzn" using tzzn(3) by simp
  have e_zzn: "fdiv (Finite zz) (Finite nf) = Inr (Finite zzn)"
    using tzzn(1) nf by simp
  define den where "den = round_double (1 + zzn)"
  have "0 \<le> 1 + zzn" "1 + zzn \<le> of_int 5" using tzzn(3,4) by simp_all
  note tden = in_range_Finite [OF this, folded den_def]
  have e_den: "fadd (Finite 1) (Finite zzn) = Finite den"
    using tden(1) by simp
  have den: "1 \<le> den"
    unfolding den_def using zzn by (intro round_double_ge) simp_all
  \<comment> \<open>\<open>center = (phat + z * z / (2 * n)) / denom\<close>\<close>
  define c where "c = round_double (zz / n2)"
  have "zz / n2 \<le> of_int 4"
    using quotient_le_numerator(2) [OF zz(1) n2] zz(2) by simp
  note tc = in_range_Finite [OF quotient_le_numerator(1) [OF zz(1) n2] this, folded c_def]
  have e_c: "fdiv (Finite zz) (Finite n2) = Inr (Finite c)"
    using tc(1) n2 by simp
  have "zz / n2 \<le> zz / nf"
    using zz(1) nf nf_n2 by (intro divide_left_mono) simp_all
  then have c_zzn: "c \<le> zzn"
    unfolding c_def zzn_def by (rule round_double_mono)
  define num where "num = round_double (p + c)"
  have "0 \<le> p + c" "p + c \<le> of_int 5" using p tc(3,4) by simp_all
  note tnum = in_range_Finite [OF this, folded num_def]
  have e_num: "fadd (Finite p) (Finite c) = Finite num"
    using tnum(1) by simp
  have num_den: "num \<le> den"
    unfolding num_def den_def using p(2) c_zzn by (intro round_double_mono) simp
  define center where "center = round_double (num / den)"
  have "num / den \<le> of_int 1" using num_den den by simp
  moreover have "0 \<le> num / den" using tnum(3) den by simp
  ultimately have "0 \<le> num / den" "num / den \<le> of_int 1" by simp_all
  note tcenter = in_range_Finite [OF this, folded center_def]
  have center: "0 \<le> center" "center \<le> 1" using tcenter(3,4) by simp_all
  have e_center: "fdiv (Finite num) (Finite den) = Inr (Finite center)"
    using tcenter(1) den by simp
  \<comment> \<open>the argument of the square root\<close>
  define h where "h = round_double (zz / n4)"
  have "zz / n4 \<le> of_int 4"
    using quotient_le_numerator(2) [OF zz(1) n4] zz(2) by simp
  note th = in_range_Finite [OF quotient_le_numerator(1) [OF zz(1) n4] this, folded h_def]
  have e_h: "fdiv (Finite zz) (Finite n4) = Inr (Finite h)"
    using th(1) n4 by simp
  define om where "om = round_double (1 - p)"
  have "0 \<le> 1 - p" "1 - p \<le> of_int 1" using p by simp_all
  note tom = in_range_Finite [OF this, folded om_def]
  have e_om: "fsub (Finite 1) (Finite p) = Finite om"
    using tom(1) by (simp add: fsub_Finite)
  define pq where "pq = round_double (p * om)"
  have "p * om \<le> 1 * 1" using p tom(3,4) by (intro mult_mono) simp_all
  then have "0 \<le> p * om" "p * om \<le> of_int 1" using p tom(3) by simp_all
  note tpq = in_range_Finite [OF this, folded pq_def]
  have e_pq: "fmul (Finite p) (Finite om) = Finite pq"
    using tpq(1) by simp
  define sm where "sm = round_double (pq + h)"
  have "0 \<le> pq + h" "pq + h \<le> of_int 5" using tpq(3,4) th(3,4) by simp_all
  note tsm = in_range_Finite [OF this, folded sm_def]
  have sm: "0 \<le> sm" "sm \<le> 5" using tsm(3,4) by simp_all
  have e_sm: "fadd (Finite pq) (Finite h) = Finite sm"
    using tsm(1) by simp
  define rad where "rad = round_double (sm / nf)"
  have "sm / nf \<le> of_int 5"
    using quotient_le_numerator(2) [OF sm(1) nf] sm(2) by simp
  note trad = in_range_Finite [OF quotient_le_numerator(1) [OF sm(1) nf] this, folded rad_def]
  have rad: "0 \<le> rad" "rad \<le> 5" using trad(3,4) by simp_all
  have e_rad: "fdiv (Finite sm) (Finite nf) = Inr (Finite rad)"
    using trad(1) nf by simp
  \<comment> \<open>\<open>half = z * sqrt(...) / denom\<close>\<close>
  define root where "root = sqrt_double rad"
  have root: "0 \<le> root" "root \<le> 4"
    unfolding root_def using sqrt_double_nonneg sqrt_double_le_4 [OF rad] by simp_all
  have e_root: "py_sqrt (Finite rad) = Inr (Finite root)"
    using rad(1) by (simp add: root_def)
  define zr where "zr = round_double (z * root)"
  have "z * root \<le> 2 * 4" using z root by (intro mult_mono) simp_all
  then have "0 \<le> z * root" "z * root \<le> of_int 8" using z root by simp_all
  note tzr = in_range_Finite [OF this, folded zr_def]
  have zr: "0 \<le> zr" "zr \<le> 8" using tzr(3,4) by simp_all
  have e_zr: "fmul (Finite z) (Finite root) = Finite zr"
    using tzr(1) by simp
  define half where "half = round_double (zr / den)"
  have "zr / den \<le> of_int 8"
    using quotient_le_numerator(2) [OF zr(1) den] zr(2) by simp
  note thalf = in_range_Finite [OF quotient_le_numerator(1) [OF zr(1) den] this, folded half_def]
  have half: "0 \<le> half" "half \<le> 8" using thalf(3,4) by simp_all
  have e_half: "fdiv (Finite zr) (Finite den) = Inr (Finite half)"
    using thalf(1) den by simp
  \<comment> \<open>the two bounds before clamping\<close>
  define lo where "lo = round_double (center - half)"
  define hi where "hi = round_double (center + half)"
  have "\<bar>center - half\<bar> \<le> of_int 8" using center half by simp
  then have "to_float (center - half) = Finite lo"
    unfolding lo_def by (rule abs_range_Finite) simp
  then have e_lo: "fsub (Finite center) (Finite half) = Finite lo"
    by (simp add: fsub_Finite)
  have "0 \<le> center + half" "center + half \<le> of_int 9" using center half by simp_all
  note thi = in_range_Finite [OF this, folded hi_def]
  have e_hi: "fadd (Finite center) (Finite half) = Finite hi"
    using thi(1) by simp
  have lo1: "lo \<le> 1"
    unfolding lo_def using center half by (intro round_double_le) simp_all
  have lo_hi: "lo \<le> hi"
    unfolding lo_def hi_def using half by (intro round_double_mono) simp
  have hi0: "0 \<le> hi" using thi(3) by simp
  have "wilson_interval k n (Finite z) = Inr (Finite p, Finite (max 0 lo), Finite (min 1 hi))"
    unfolding wilson_interval_def
    by (simp only: nz if_False Let_def ebind.simps e_p e_zz e_zmul e_nf e_n2 e_n4 e_zzn e_den e_c
        e_num e_center e_h e_om e_pq e_sm e_rad e_root e_zr e_half e_lo e_hi
        py_max_Finite py_min_Finite)
  moreover have "0 \<le> max 0 lo" "max 0 lo \<le> min 1 hi" "min 1 hi \<le> 1"
    using lo1 lo_hi hi0 by simp_all
  ultimately show ?thesis
    using p p_def by blast
qed

section \<open>Evaluating the aggregator\<close>

text \<open>
  The default \<open>z\<close> is the double \<open>0x1.f5c28f5c28f5cp+0\<close>. Each trace below lists the value
  of every operation of one call, in the order of the source, and the value of the call
  follows from them.
\<close>

lemma z_default_value: "z_default = Finite (2206763817411543 / 1125899906842624)"
  by code_simp

lemma z_default_range:
  "\<exists>z. z_default = Finite z \<and> 0 \<le> z \<and> z \<le> 2"
  by (intro exI [of _ "2206763817411543 / 1125899906842624"]) (simp add: z_default_value)

lemma wilson_trace_2_1:
  shows "int_true_div 2 1 = Inr (Finite 2)"
    and "fpow2 (Finite (2206763817411543 / 1125899906842624)) = Inr (Finite (135164283816457 / 35184372088832))"
    and "float_of_int 1 = Inr (Finite 1)"
    and "fdiv (Finite (135164283816457 / 35184372088832)) (Finite 1) = Inr (Finite (135164283816457 / 35184372088832))"
    and "float_of_int (2 * 1) = Inr (Finite 2)"
    and "fmul (Finite (2206763817411543 / 1125899906842624)) (Finite (2206763817411543 / 1125899906842624)) = Finite (135164283816457 / 35184372088832)"
    and "fdiv (Finite (135164283816457 / 35184372088832)) (Finite 2) = Inr (Finite (135164283816457 / 70368744177664))"
    and "fadd (Finite 2) (Finite (135164283816457 / 70368744177664)) = Finite (275901772171785 / 70368744177664)"
    and "fadd (Finite 1) (Finite (135164283816457 / 35184372088832)) = Finite (170348655905289 / 35184372088832)"
    and "fdiv (Finite (275901772171785 / 70368744177664)) (Finite (170348655905289 / 35184372088832)) = Inr (Finite (1823541124730899 / 2251799813685248))"
    and "float_of_int (4 * 1) = Inr (Finite 4)"
    and "fdiv (Finite (135164283816457 / 35184372088832)) (Finite 4) = Inr (Finite (135164283816457 / 140737488355328))"
    and "fsub (Finite 1) (Finite 2) = Finite (- 1)"
    and "fmul (Finite 2) (Finite (- 1)) = Finite (- 2)"
    and "fadd (Finite (- 2)) (Finite (135164283816457 / 140737488355328)) = Finite (- (146310692894199 / 140737488355328))"
    and "fdiv (Finite (- (146310692894199 / 140737488355328))) (Finite 1) = Inr (Finite (- (146310692894199 / 140737488355328)))"
    and "py_sqrt (Finite (- (146310692894199 / 140737488355328))) = Inl ValueError"
proof -
  show "int_true_div 2 1 = Inr (Finite 2)"
  proof -
    have "round_double (2 / 1) = 2"
      using round_double_eq [of "1" "2 / 1" "(1 / 2251799813685248)" "4503599627370496"]
      by (simp add: round_half_even_def tie_even_def floor_rat_numeral floor_rat_neg_numeral)
    then show ?thesis
      by (simp add: int_true_div_def fits_double)
  qed
  show "fpow2 (Finite (2206763817411543 / 1125899906842624)) = Inr (Finite (135164283816457 / 35184372088832))"
  proof -
    have "round_double ((2206763817411543 / 1125899906842624) * (2206763817411543 / 1125899906842624)) = (135164283816457 / 35184372088832)"
      using round_double_eq [of "1" "(2206763817411543 / 1125899906842624) * (2206763817411543 / 1125899906842624)" "(1 / 2251799813685248)" "8650514164253248"]
      by (simp add: round_half_even_def tie_even_def floor_rat_numeral floor_rat_neg_numeral)
    then show ?thesis
      by (simp add:  fits_double)
  qed
  show "float_of_int 1 = Inr (Finite 1)"
  proof -
    have "round_double (1) = 1"
      using round_double_eq [of "0" "1" "(1 / 4503599627370496)" "4503599627370496"]
      by (simp add: round_half_even_def tie_even_def floor_rat_numeral floor_rat_neg_numeral)
    then show ?thesis
      by (simp add: float_of_int_def fits_double)
  qed
  show "fdiv (Finite (135164283816457 / 35184372088832)) (Finite 1) = Inr (Finite (135164283816457 / 35184372088832))"
  proof -
    have "round_double ((135164283816457 / 35184372088832) / 1) = (135164283816457 / 35184372088832)"
      using round_double_eq [of "1" "(135164283816457 / 35184372088832) / 1" "(1 / 2251799813685248)" "8650514164253248"]
      by (simp add: round_half_even_def tie_even_def floor_rat_numeral floor_rat_neg_numeral)
    then show ?thesis
      by (simp add: to_float_def fits_double)
  qed
  show "float_of_int (2 * 1) = Inr (Finite 2)"
  proof -
    have "round_double (2) = 2"
      using round_double_eq [of "1" "2" "(1 / 2251799813685248)" "4503599627370496"]
      by (simp add: round_half_even_def tie_even_def floor_rat_numeral floor_rat_neg_numeral)
    then show ?thesis
      by (simp add: float_of_int_def fits_double)
  qed
  show "fmul (Finite (2206763817411543 / 1125899906842624)) (Finite (2206763817411543 / 1125899906842624)) = Finite (135164283816457 / 35184372088832)"
  proof -
    have "round_double ((2206763817411543 / 1125899906842624) * (2206763817411543 / 1125899906842624)) = (135164283816457 / 35184372088832)"
      using round_double_eq [of "1" "(2206763817411543 / 1125899906842624) * (2206763817411543 / 1125899906842624)" "(1 / 2251799813685248)" "8650514164253248"]
      by (simp add: round_half_even_def tie_even_def floor_rat_numeral floor_rat_neg_numeral)
    then show ?thesis
      by (simp add: to_float_def fits_double)
  qed
  show "fdiv (Finite (135164283816457 / 35184372088832)) (Finite 2) = Inr (Finite (135164283816457 / 70368744177664))"
  proof -
    have "round_double ((135164283816457 / 35184372088832) / 2) = (135164283816457 / 70368744177664)"
      using round_double_eq [of "0" "(135164283816457 / 35184372088832) / 2" "(1 / 4503599627370496)" "8650514164253248"]
      by (simp add: round_half_even_def tie_even_def floor_rat_numeral floor_rat_neg_numeral)
    then show ?thesis
      by (simp add: to_float_def fits_double)
  qed
  show "fadd (Finite 2) (Finite (135164283816457 / 70368744177664)) = Finite (275901772171785 / 70368744177664)"
  proof -
    have "round_double (2 + (135164283816457 / 70368744177664)) = (275901772171785 / 70368744177664)"
      using round_double_eq [of "1" "2 + (135164283816457 / 70368744177664)" "(1 / 2251799813685248)" "8828856709497120"]
      by (simp add: round_half_even_def tie_even_def floor_rat_numeral floor_rat_neg_numeral)
    then show ?thesis
      by (simp add: to_float_def fits_double)
  qed
  show "fadd (Finite 1) (Finite (135164283816457 / 35184372088832)) = Finite (170348655905289 / 35184372088832)"
  proof -
    have "round_double (1 + (135164283816457 / 35184372088832)) = (170348655905289 / 35184372088832)"
      using round_double_eq [of "2" "1 + (135164283816457 / 35184372088832)" "(1 / 1125899906842624)" "5451156988969248"]
      by (simp add: round_half_even_def tie_even_def floor_rat_numeral floor_rat_neg_numeral)
    then show ?thesis
      by (simp add: to_float_def fits_double)
  qed
  show "fdiv (Finite (275901772171785 / 70368744177664)) (Finite (170348655905289 / 35184372088832)) = Inr (Finite (1823541124730899 / 2251799813685248))"
  proof -
    have "round_double ((275901772171785 / 70368744177664) / (170348655905289 / 35184372088832)) = (1823541124730899 / 2251799813685248)"
      using round_double_eq [of "-1" "(275901772171785 / 70368744177664) / (170348655905289 / 35184372088832)" "(1 / 9007199254740992)" "7294164498923596"]
      by (simp add: round_half_even_def tie_even_def floor_rat_numeral floor_rat_neg_numeral)
    then show ?thesis
      by (simp add: to_float_def fits_double)
  qed
  show "float_of_int (4 * 1) = Inr (Finite 4)"
  proof -
    have "round_double (4) = 4"
      using round_double_eq [of "2" "4" "(1 / 1125899906842624)" "4503599627370496"]
      by (simp add: round_half_even_def tie_even_def floor_rat_numeral floor_rat_neg_numeral)
    then show ?thesis
      by (simp add: float_of_int_def fits_double)
  qed
  show "fdiv (Finite (135164283816457 / 35184372088832)) (Finite 4) = Inr (Finite (135164283816457 / 140737488355328))"
  proof -
    have "round_double ((135164283816457 / 35184372088832) / 4) = (135164283816457 / 140737488355328)"
      using round_double_eq [of "-1" "(135164283816457 / 35184372088832) / 4" "(1 / 9007199254740992)" "8650514164253248"]
      by (simp add: round_half_even_def tie_even_def floor_rat_numeral floor_rat_neg_numeral)
    then show ?thesis
      by (simp add: to_float_def fits_double)
  qed
  show "fsub (Finite 1) (Finite 2) = Finite (- 1)"
  proof -
    have "round_double (1 - 2) = (- 1)"
      using round_double_eq [of "0" "1 - 2" "(1 / 4503599627370496)" "-4503599627370496"]
      by (simp add: round_half_even_def tie_even_def floor_rat_numeral floor_rat_neg_numeral)
    then show ?thesis
      by (simp add: fsub_def to_float_def fits_double)
  qed
  show "fmul (Finite 2) (Finite (- 1)) = Finite (- 2)"
  proof -
    have "round_double (2 * (- 1)) = (- 2)"
      using round_double_eq [of "1" "2 * (- 1)" "(1 / 2251799813685248)" "-4503599627370496"]
      by (simp add: round_half_even_def tie_even_def floor_rat_numeral floor_rat_neg_numeral)
    then show ?thesis
      by (simp add: to_float_def fits_double)
  qed
  show "fadd (Finite (- 2)) (Finite (135164283816457 / 140737488355328)) = Finite (- (146310692894199 / 140737488355328))"
  proof -
    have "round_double ((- 2) + (135164283816457 / 140737488355328)) = (- (146310692894199 / 140737488355328))"
      using round_double_eq [of "0" "(- 2) + (135164283816457 / 140737488355328)" "(1 / 4503599627370496)" "-4681942172614368"]
      by (simp add: round_half_even_def tie_even_def floor_rat_numeral floor_rat_neg_numeral)
    then show ?thesis
      by (simp add: to_float_def fits_double)
  qed
  show "fdiv (Finite (- (146310692894199 / 140737488355328))) (Finite 1) = Inr (Finite (- (146310692894199 / 140737488355328)))"
  proof -
    have "round_double ((- (146310692894199 / 140737488355328)) / 1) = (- (146310692894199 / 140737488355328))"
      using round_double_eq [of "0" "(- (146310692894199 / 140737488355328)) / 1" "(1 / 4503599627370496)" "-4681942172614368"]
      by (simp add: round_half_even_def tie_even_def floor_rat_numeral floor_rat_neg_numeral)
    then show ?thesis
      by (simp add: to_float_def fits_double)
  qed
  show "py_sqrt (Finite (- (146310692894199 / 140737488355328))) = Inl ValueError"
    by simp
qed

lemma wilson_value_2_1:
  "wilson_interval 2 1 z_default = Inl ValueError"
proof -
  have nz: "((1::int) = 0) = False"
    by simp
  show ?thesis
    unfolding wilson_interval_def z_default_value
    by (simp only: nz if_False Let_def ebind.simps wilson_trace_2_1)
qed

lemma wilson_trace_5_4:
  shows "int_true_div 5 4 = Inr (Finite (5 / 4))"
    and "fpow2 (Finite (2206763817411543 / 1125899906842624)) = Inr (Finite (135164283816457 / 35184372088832))"
    and "float_of_int 4 = Inr (Finite 4)"
    and "fdiv (Finite (135164283816457 / 35184372088832)) (Finite 4) = Inr (Finite (135164283816457 / 140737488355328))"
    and "float_of_int (2 * 4) = Inr (Finite 8)"
    and "fmul (Finite (2206763817411543 / 1125899906842624)) (Finite (2206763817411543 / 1125899906842624)) = Finite (135164283816457 / 35184372088832)"
    and "fdiv (Finite (135164283816457 / 35184372088832)) (Finite 8) = Inr (Finite (135164283816457 / 281474976710656))"
    and "fadd (Finite (5 / 4)) (Finite (135164283816457 / 281474976710656)) = Finite (487008004704777 / 281474976710656)"
    and "fadd (Finite 1) (Finite (135164283816457 / 140737488355328)) = Finite (275901772171785 / 140737488355328)"
    and "fdiv (Finite (487008004704777 / 281474976710656)) (Finite (275901772171785 / 140737488355328)) = Inr (Finite (3974764372207933 / 4503599627370496))"
    and "float_of_int (4 * 4) = Inr (Finite 16)"
    and "fdiv (Finite (135164283816457 / 35184372088832)) (Finite 16) = Inr (Finite (135164283816457 / 562949953421312))"
    and "fsub (Finite 1) (Finite (5 / 4)) = Finite (- (1 / 4))"
    and "fmul (Finite (5 / 4)) (Finite (- (1 / 4))) = Finite (- (5 / 16))"
    and "fadd (Finite (- (5 / 16))) (Finite (135164283816457 / 562949953421312)) = Finite (- (40757576627703 / 562949953421312))"
    and "fdiv (Finite (- (40757576627703 / 562949953421312))) (Finite 4) = Inr (Finite (- (40757576627703 / 2251799813685248)))"
    and "py_sqrt (Finite (- (40757576627703 / 2251799813685248))) = Inl ValueError"
proof -
  show "int_true_div 5 4 = Inr (Finite (5 / 4))"
  proof -
    have "round_double (5 / 4) = (5 / 4)"
      using round_double_eq [of "0" "5 / 4" "(1 / 4503599627370496)" "5629499534213120"]
      by (simp add: round_half_even_def tie_even_def floor_rat_numeral floor_rat_neg_numeral)
    then show ?thesis
      by (simp add: int_true_div_def fits_double)
  qed
  show "fpow2 (Finite (2206763817411543 / 1125899906842624)) = Inr (Finite (135164283816457 / 35184372088832))"
  proof -
    have "round_double ((2206763817411543 / 1125899906842624) * (2206763817411543 / 1125899906842624)) = (135164283816457 / 35184372088832)"
      using round_double_eq [of "1" "(2206763817411543 / 1125899906842624) * (2206763817411543 / 1125899906842624)" "(1 / 2251799813685248)" "8650514164253248"]
      by (simp add: round_half_even_def tie_even_def floor_rat_numeral floor_rat_neg_numeral)
    then show ?thesis
      by (simp add:  fits_double)
  qed
  show "float_of_int 4 = Inr (Finite 4)"
  proof -
    have "round_double (4) = 4"
      using round_double_eq [of "2" "4" "(1 / 1125899906842624)" "4503599627370496"]
      by (simp add: round_half_even_def tie_even_def floor_rat_numeral floor_rat_neg_numeral)
    then show ?thesis
      by (simp add: float_of_int_def fits_double)
  qed
  show "fdiv (Finite (135164283816457 / 35184372088832)) (Finite 4) = Inr (Finite (135164283816457 / 140737488355328))"
  proof -
    have "round_double ((135164283816457 / 35184372088832) / 4) = (135164283816457 / 140737488355328)"
      using round_double_eq [of "-1" "(135164283816457 / 35184372088832) / 4" "(1 / 9007199254740992)" "8650514164253248"]
      by (simp add: round_half_even_def tie_even_def floor_rat_numeral floor_rat_neg_numeral)
    then show ?thesis
      by (simp add: to_float_def fits_double)
  qed
  show "float_of_int (2 * 4) = Inr (Finite 8)"
  proof -
    have "round_double (8) = 8"
      using round_double_eq [of "3" "8" "(1 / 562949953421312)" "4503599627370496"]
      by (simp add: round_half_even_def tie_even_def floor_rat_numeral floor_rat_neg_numeral)
    then show ?thesis
      by (simp add: float_of_int_def fits_double)
  qed
  show "fmul (Finite (2206763817411543 / 1125899906842624)) (Finite (2206763817411543 / 1125899906842624)) = Finite (135164283816457 / 35184372088832)"
  proof -
    have "round_double ((2206763817411543 / 1125899906842624) * (2206763817411543 / 1125899906842624)) = (135164283816457 / 35184372088832)"
      using round_double_eq [of "1" "(2206763817411543 / 1125899906842624) * (2206763817411543 / 1125899906842624)" "(1 / 2251799813685248)" "8650514164253248"]
      by (simp add: round_half_even_def tie_even_def floor_rat_numeral floor_rat_neg_numeral)
    then show ?thesis
      by (simp add: to_float_def fits_double)
  qed
  show "fdiv (Finite (135164283816457 / 35184372088832)) (Finite 8) = Inr (Finite (135164283816457 / 281474976710656))"
  proof -
    have "round_double ((135164283816457 / 35184372088832) / 8) = (135164283816457 / 281474976710656)"
      using round_double_eq [of "-2" "(135164283816457 / 35184372088832) / 8" "(1 / 18014398509481984)" "8650514164253248"]
      by (simp add: round_half_even_def tie_even_def floor_rat_numeral floor_rat_neg_numeral)
    then show ?thesis
      by (simp add: to_float_def fits_double)
  qed
  show "fadd (Finite (5 / 4)) (Finite (135164283816457 / 281474976710656)) = Finite (487008004704777 / 281474976710656)"
  proof -
    have "round_double ((5 / 4) + (135164283816457 / 281474976710656)) = (487008004704777 / 281474976710656)"
      using round_double_eq [of "0" "(5 / 4) + (135164283816457 / 281474976710656)" "(1 / 4503599627370496)" "7792128075276432"]
      by (simp add: round_half_even_def tie_even_def floor_rat_numeral floor_rat_neg_numeral)
    then show ?thesis
      by (simp add: to_float_def fits_double)
  qed
  show "fadd (Finite 1) (Finite (135164283816457 / 140737488355328)) = Finite (275901772171785 / 140737488355328)"
  proof -
    have "round_double (1 + (135164283816457 / 140737488355328)) = (275901772171785 / 140737488355328)"
      using round_double_eq [of "0" "1 + (135164283816457 / 140737488355328)" "(1 / 4503599627370496)" "8828856709497120"]
      by (simp add: round_half_even_def tie_even_def floor_rat_numeral floor_rat_neg_numeral)
    then show ?thesis
      by (simp add: to_float_def fits_double)
  qed
  show "fdiv (Finite (487008004704777 / 281474976710656)) (Finite (275901772171785 / 140737488355328)) = Inr (Finite (3974764372207933 / 4503599627370496))"
  proof -
    have "round_double ((487008004704777 / 281474976710656) / (275901772171785 / 140737488355328)) = (3974764372207933 / 4503599627370496)"
      using round_double_eq [of "-1" "(487008004704777 / 281474976710656) / (275901772171785 / 140737488355328)" "(1 / 9007199254740992)" "7949528744415866"]
      by (simp add: round_half_even_def tie_even_def floor_rat_numeral floor_rat_neg_numeral)
    then show ?thesis
      by (simp add: to_float_def fits_double)
  qed
  show "float_of_int (4 * 4) = Inr (Finite 16)"
  proof -
    have "round_double (16) = 16"
      using round_double_eq [of "4" "16" "(1 / 281474976710656)" "4503599627370496"]
      by (simp add: round_half_even_def tie_even_def floor_rat_numeral floor_rat_neg_numeral)
    then show ?thesis
      by (simp add: float_of_int_def fits_double)
  qed
  show "fdiv (Finite (135164283816457 / 35184372088832)) (Finite 16) = Inr (Finite (135164283816457 / 562949953421312))"
  proof -
    have "round_double ((135164283816457 / 35184372088832) / 16) = (135164283816457 / 562949953421312)"
      using round_double_eq [of "-3" "(135164283816457 / 35184372088832) / 16" "(1 / 36028797018963968)" "8650514164253248"]
      by (simp add: round_half_even_def tie_even_def floor_rat_numeral floor_rat_neg_numeral)
    then show ?thesis
      by (simp add: to_float_def fits_double)
  qed
  show "fsub (Finite 1) (Finite (5 / 4)) = Finite (- (1 / 4))"
  proof -
    have "round_double (1 - (5 / 4)) = (- (1 / 4))"
      using round_double_eq [of "-2" "1 - (5 / 4)" "(1 / 18014398509481984)" "-4503599627370496"]
      by (simp add: round_half_even_def tie_even_def floor_rat_numeral floor_rat_neg_numeral)
    then show ?thesis
      by (simp add: fsub_def to_float_def fits_double)
  qed
  show "fmul (Finite (5 / 4)) (Finite (- (1 / 4))) = Finite (- (5 / 16))"
  proof -
    have "round_double ((5 / 4) * (- (1 / 4))) = (- (5 / 16))"
      using round_double_eq [of "-2" "(5 / 4) * (- (1 / 4))" "(1 / 18014398509481984)" "-5629499534213120"]
      by (simp add: round_half_even_def tie_even_def floor_rat_numeral floor_rat_neg_numeral)
    then show ?thesis
      by (simp add: to_float_def fits_double)
  qed
  show "fadd (Finite (- (5 / 16))) (Finite (135164283816457 / 562949953421312)) = Finite (- (40757576627703 / 562949953421312))"
  proof -
    have "round_double ((- (5 / 16)) + (135164283816457 / 562949953421312)) = (- (40757576627703 / 562949953421312))"
      using round_double_eq [of "-4" "(- (5 / 16)) + (135164283816457 / 562949953421312)" "(1 / 72057594037927936)" "-5216969808345984"]
      by (simp add: round_half_even_def tie_even_def floor_rat_numeral floor_rat_neg_numeral)
    then show ?thesis
      by (simp add: to_float_def fits_double)
  qed
  show "fdiv (Finite (- (40757576627703 / 562949953421312))) (Finite 4) = Inr (Finite (- (40757576627703 / 2251799813685248)))"
  proof -
    have "round_double ((- (40757576627703 / 562949953421312)) / 4) = (- (40757576627703 / 2251799813685248))"
      using round_double_eq [of "-6" "(- (40757576627703 / 562949953421312)) / 4" "(1 / 288230376151711744)" "-5216969808345984"]
      by (simp add: round_half_even_def tie_even_def floor_rat_numeral floor_rat_neg_numeral)
    then show ?thesis
      by (simp add: to_float_def fits_double)
  qed
  show "py_sqrt (Finite (- (40757576627703 / 2251799813685248))) = Inl ValueError"
    by simp
qed

lemma wilson_value_5_4:
  "wilson_interval 5 4 z_default = Inl ValueError"
proof -
  have nz: "((4::int) = 0) = False"
    by simp
  show ?thesis
    unfolding wilson_interval_def z_default_value
    by (simp only: nz if_False Let_def ebind.simps wilson_trace_5_4)
qed

lemma wilson_trace_6_6:
  shows "int_true_div 6 6 = Inr (Finite 1)"
    and "fpow2 (Finite (2206763817411543 / 1125899906842624)) = Inr (Finite (135164283816457 / 35184372088832))"
    and "float_of_int 6 = Inr (Finite 6)"
    and "fdiv (Finite (135164283816457 / 35184372088832)) (Finite 6) = Inr (Finite (5767009442835499 / 9007199254740992))"
    and "float_of_int (2 * 6) = Inr (Finite 12)"
    and "fmul (Finite (2206763817411543 / 1125899906842624)) (Finite (2206763817411543 / 1125899906842624)) = Finite (135164283816457 / 35184372088832)"
    and "fdiv (Finite (135164283816457 / 35184372088832)) (Finite 12) = Inr (Finite (5767009442835499 / 18014398509481984))"
    and "fadd (Finite 1) (Finite (5767009442835499 / 18014398509481984)) = Finite (5945351988079371 / 4503599627370496)"
    and "fadd (Finite 1) (Finite (5767009442835499 / 9007199254740992)) = Finite (3693552174394123 / 2251799813685248)"
    and "fdiv (Finite (5945351988079371 / 4503599627370496)) (Finite (3693552174394123 / 2251799813685248)) = Inr (Finite (7249250513834381 / 9007199254740992))"
    and "float_of_int (4 * 6) = Inr (Finite 24)"
    and "fdiv (Finite (135164283816457 / 35184372088832)) (Finite 24) = Inr (Finite (5767009442835499 / 36028797018963968))"
    and "fsub (Finite 1) (Finite 1) = Finite 0"
    and "fmul (Finite 1) (Finite 0) = Finite 0"
    and "fadd (Finite 0) (Finite (5767009442835499 / 36028797018963968)) = Finite (5767009442835499 / 36028797018963968)"
    and "fdiv (Finite (5767009442835499 / 36028797018963968)) (Finite 6) = Inr (Finite (7689345923780665 / 288230376151711744))"
    and "py_sqrt (Finite (7689345923780665 / 288230376151711744)) = Inr (Finite (735587939137181 / 4503599627370496))"
    and "fmul (Finite (2206763817411543 / 1125899906842624)) (Finite (735587939137181 / 4503599627370496)) = Finite (5767009442835499 / 18014398509481984)"
    and "fdiv (Finite (5767009442835499 / 18014398509481984)) (Finite (3693552174394123 / 2251799813685248)) = Inr (Finite (7031794963626441 / 36028797018963968))"
    and "fsub (Finite (7249250513834381 / 9007199254740992)) (Finite (7031794963626441 / 36028797018963968)) = Finite (5491301772927771 / 9007199254740992)"
    and "fadd (Finite (7249250513834381 / 9007199254740992)) (Finite (7031794963626441 / 36028797018963968)) = Finite (9007199254740991 / 9007199254740992)"
    and "py_max (Finite 0) (Finite (5491301772927771 / 9007199254740992)) = Finite (5491301772927771 / 9007199254740992)"
    and "py_min (Finite 1) (Finite (9007199254740991 / 9007199254740992)) = Finite (9007199254740991 / 9007199254740992)"
proof -
  show "int_true_div 6 6 = Inr (Finite 1)"
  proof -
    have "round_double (6 / 6) = 1"
      using round_double_eq [of "0" "6 / 6" "(1 / 4503599627370496)" "4503599627370496"]
      by (simp add: round_half_even_def tie_even_def floor_rat_numeral floor_rat_neg_numeral)
    then show ?thesis
      by (simp add: int_true_div_def fits_double)
  qed
  show "fpow2 (Finite (2206763817411543 / 1125899906842624)) = Inr (Finite (135164283816457 / 35184372088832))"
  proof -
    have "round_double ((2206763817411543 / 1125899906842624) * (2206763817411543 / 1125899906842624)) = (135164283816457 / 35184372088832)"
      using round_double_eq [of "1" "(2206763817411543 / 1125899906842624) * (2206763817411543 / 1125899906842624)" "(1 / 2251799813685248)" "8650514164253248"]
      by (simp add: round_half_even_def tie_even_def floor_rat_numeral floor_rat_neg_numeral)
    then show ?thesis
      by (simp add:  fits_double)
  qed
  show "float_of_int 6 = Inr (Finite 6)"
  proof -
    have "round_double (6) = 6"
      using round_double_eq [of "2" "6" "(1 / 1125899906842624)" "6755399441055744"]
      by (simp add: round_half_even_def tie_even_def floor_rat_numeral floor_rat_neg_numeral)
    then show ?thesis
      by (simp add: float_of_int_def fits_double)
  qed
  show "fdiv (Finite (135164283816457 / 35184372088832)) (Finite 6) = Inr (Finite (5767009442835499 / 9007199254740992))"
  proof -
    have "round_double ((135164283816457 / 35184372088832) / 6) = (5767009442835499 / 9007199254740992)"
      using round_double_eq [of "-1" "(135164283816457 / 35184372088832) / 6" "(1 / 9007199254740992)" "5767009442835499"]
      by (simp add: round_half_even_def tie_even_def floor_rat_numeral floor_rat_neg_numeral)
    then show ?thesis
      by (simp add: to_float_def fits_double)
  qed
  show "float_of_int (2 * 6) = Inr (Finite 12)"
  proof -
    have "round_double (12) = 12"
      using round_double_eq [of "3" "12" "(1 / 562949953421312)" "6755399441055744"]
      by (simp add: round_half_even_def tie_even_def floor_rat_numeral floor_rat_neg_numeral)
    then show ?thesis
      by (simp add: float_of_int_def fits_double)
  qed
  show "fmul (Finite (2206763817411543 / 1125899906842624)) (Finite (2206763817411543 / 1125899906842624)) = Finite (135164283816457 / 35184372088832)"
  proof -
    have "round_double ((2206763817411543 / 1125899906842624) * (2206763817411543 / 1125899906842624)) = (135164283816457 / 35184372088832)"
      using round_double_eq [of "1" "(2206763817411543 / 1125899906842624) * (2206763817411543 / 1125899906842624)" "(1 / 2251799813685248)" "8650514164253248"]
      by (simp add: round_half_even_def tie_even_def floor_rat_numeral floor_rat_neg_numeral)
    then show ?thesis
      by (simp add: to_float_def fits_double)
  qed
  show "fdiv (Finite (135164283816457 / 35184372088832)) (Finite 12) = Inr (Finite (5767009442835499 / 18014398509481984))"
  proof -
    have "round_double ((135164283816457 / 35184372088832) / 12) = (5767009442835499 / 18014398509481984)"
      using round_double_eq [of "-2" "(135164283816457 / 35184372088832) / 12" "(1 / 18014398509481984)" "5767009442835499"]
      by (simp add: round_half_even_def tie_even_def floor_rat_numeral floor_rat_neg_numeral)
    then show ?thesis
      by (simp add: to_float_def fits_double)
  qed
  show "fadd (Finite 1) (Finite (5767009442835499 / 18014398509481984)) = Finite (5945351988079371 / 4503599627370496)"
  proof -
    have "round_double (1 + (5767009442835499 / 18014398509481984)) = (5945351988079371 / 4503599627370496)"
      using round_double_eq [of "0" "1 + (5767009442835499 / 18014398509481984)" "(1 / 4503599627370496)" "5945351988079371"]
      by (simp add: round_half_even_def tie_even_def floor_rat_numeral floor_rat_neg_numeral)
    then show ?thesis
      by (simp add: to_float_def fits_double)
  qed
  show "fadd (Finite 1) (Finite (5767009442835499 / 9007199254740992)) = Finite (3693552174394123 / 2251799813685248)"
  proof -
    have "round_double (1 + (5767009442835499 / 9007199254740992)) = (3693552174394123 / 2251799813685248)"
      using round_double_eq [of "0" "1 + (5767009442835499 / 9007199254740992)" "(1 / 4503599627370496)" "7387104348788246"]
      by (simp add: round_half_even_def tie_even_def floor_rat_numeral floor_rat_neg_numeral)
    then show ?thesis
      by (simp add: to_float_def fits_double)
  qed
  show "fdiv (Finite (5945351988079371 / 4503599627370496)) (Finite (3693552174394123 / 2251799813685248)) = Inr (Finite (7249250513834381 / 9007199254740992))"
  proof -
    have "round_double ((5945351988079371 / 4503599627370496) / (3693552174394123 / 2251799813685248)) = (7249250513834381 / 9007199254740992)"
      using round_double_eq [of "-1" "(5945351988079371 / 4503599627370496) / (3693552174394123 / 2251799813685248)" "(1 / 9007199254740992)" "7249250513834381"]
      by (simp add: round_half_even_def tie_even_def floor_rat_numeral floor_rat_neg_numeral)
    then show ?thesis
      by (simp add: to_float_def fits_double)
  qed
  show "float_of_int (4 * 6) = Inr (Finite 24)"
  proof -
    have "round_double (24) = 24"
      using round_double_eq [of "4" "24" "(1 / 281474976710656)" "6755399441055744"]
      by (simp add: round_half_even_def tie_even_def floor_rat_numeral floor_rat_neg_numeral)
    then show ?thesis
      by (simp add: float_of_int_def fits_double)
  qed
  show "fdiv (Finite (135164283816457 / 35184372088832)) (Finite 24) = Inr (Finite (5767009442835499 / 36028797018963968))"
  proof -
    have "round_double ((135164283816457 / 35184372088832) / 24) = (5767009442835499 / 36028797018963968)"
      using round_double_eq [of "-3" "(135164283816457 / 35184372088832) / 24" "(1 / 36028797018963968)" "5767009442835499"]
      by (simp add: round_half_even_def tie_even_def floor_rat_numeral floor_rat_neg_numeral)
    then show ?thesis
      by (simp add: to_float_def fits_double)
  qed
  show "fsub (Finite 1) (Finite 1) = Finite 0"
  proof -
    have "round_double (1 - 1) = 0"
      by simp
    then show ?thesis
      by (simp add: fsub_def to_float_def fits_double)
  qed
  show "fmul (Finite 1) (Finite 0) = Finite 0"
  proof -
    have "round_double (1 * 0) = 0"
      by simp
    then show ?thesis
      by (simp add: to_float_def fits_double)
  qed
  show "fadd (Finite 0) (Finite (5767009442835499 / 36028797018963968)) = Finite (5767009442835499 / 36028797018963968)"
  proof -
    have "round_double (0 + (5767009442835499 / 36028797018963968)) = (5767009442835499 / 36028797018963968)"
      using round_double_eq [of "-3" "0 + (5767009442835499 / 36028797018963968)" "(1 / 36028797018963968)" "5767009442835499"]
      by (simp add: round_half_even_def tie_even_def floor_rat_numeral floor_rat_neg_numeral)
    then show ?thesis
      by (simp add: to_float_def fits_double)
  qed
  show "fdiv (Finite (5767009442835499 / 36028797018963968)) (Finite 6) = Inr (Finite (7689345923780665 / 288230376151711744))"
  proof -
    have "round_double ((5767009442835499 / 36028797018963968) / 6) = (7689345923780665 / 288230376151711744)"
      using round_double_eq [of "-6" "(5767009442835499 / 36028797018963968) / 6" "(1 / 288230376151711744)" "7689345923780665"]
      by (simp add: round_half_even_def tie_even_def floor_rat_numeral floor_rat_neg_numeral)
    then show ?thesis
      by (simp add: to_float_def fits_double)
  qed
  show "py_sqrt (Finite (7689345923780665 / 288230376151711744)) = Inr (Finite (735587939137181 / 4503599627370496))"
  proof -
    have "sqrt_double ((7689345923780665 / 288230376151711744)) = (735587939137181 / 4503599627370496)"
      using sqrt_double_eq [of "-3" "(7689345923780665 / 288230376151711744)" "(1 / 36028797018963968)" "34629735437061445231188996259840" "5884703513097447" "5884703513097448"]
      by (simp add: sqrt_round_def floor_rat_numeral)
    then show ?thesis
      by simp
  qed
  show "fmul (Finite (2206763817411543 / 1125899906842624)) (Finite (735587939137181 / 4503599627370496)) = Finite (5767009442835499 / 18014398509481984)"
  proof -
    have "round_double ((2206763817411543 / 1125899906842624) * (735587939137181 / 4503599627370496)) = (5767009442835499 / 18014398509481984)"
      using round_double_eq [of "-2" "(2206763817411543 / 1125899906842624) * (735587939137181 / 4503599627370496)" "(1 / 18014398509481984)" "5767009442835499"]
      by (simp add: round_half_even_def tie_even_def floor_rat_numeral floor_rat_neg_numeral)
    then show ?thesis
      by (simp add: to_float_def fits_double)
  qed
  show "fdiv (Finite (5767009442835499 / 18014398509481984)) (Finite (3693552174394123 / 2251799813685248)) = Inr (Finite (7031794963626441 / 36028797018963968))"
  proof -
    have "round_double ((5767009442835499 / 18014398509481984) / (3693552174394123 / 2251799813685248)) = (7031794963626441 / 36028797018963968)"
      using round_double_eq [of "-3" "(5767009442835499 / 18014398509481984) / (3693552174394123 / 2251799813685248)" "(1 / 36028797018963968)" "7031794963626441"]
      by (simp add: round_half_even_def tie_even_def floor_rat_numeral floor_rat_neg_numeral)
    then show ?thesis
      by (simp add: to_float_def fits_double)
  qed
  show "fsub (Finite (7249250513834381 / 9007199254740992)) (Finite (7031794963626441 / 36028797018963968)) = Finite (5491301772927771 / 9007199254740992)"
  proof -
    have "round_double ((7249250513834381 / 9007199254740992) - (7031794963626441 / 36028797018963968)) = (5491301772927771 / 9007199254740992)"
      using round_double_eq [of "-1" "(7249250513834381 / 9007199254740992) - (7031794963626441 / 36028797018963968)" "(1 / 9007199254740992)" "5491301772927771"]
      by (simp add: round_half_even_def tie_even_def floor_rat_numeral floor_rat_neg_numeral)
    then show ?thesis
      by (simp add: fsub_def to_float_def fits_double)
  qed
  show "fadd (Finite (7249250513834381 / 9007199254740992)) (Finite (7031794963626441 / 36028797018963968)) = Finite (9007199254740991 / 9007199254740992)"
  proof -
    have "round_double ((7249250513834381 / 9007199254740992) + (7031794963626441 / 36028797018963968)) = (9007199254740991 / 9007199254740992)"
      using round_double_eq [of "-1" "(7249250513834381 / 9007199254740992) + (7031794963626441 / 36028797018963968)" "(1 / 9007199254740992)" "9007199254740991"]
      by (simp add: round_half_even_def tie_even_def floor_rat_numeral floor_rat_neg_numeral)
    then show ?thesis
      by (simp add: to_float_def fits_double)
  qed
  show "py_max (Finite 0) (Finite (5491301772927771 / 9007199254740992)) = Finite (5491301772927771 / 9007199254740992)"
    by (simp add: py_max_def)
  show "py_min (Finite 1) (Finite (9007199254740991 / 9007199254740992)) = Finite (9007199254740991 / 9007199254740992)"
    by (simp add: py_min_def)
qed

lemma wilson_value_6_6:
  "wilson_interval 6 6 z_default = Inr (Finite 1, Finite (5491301772927771 / 9007199254740992), Finite (9007199254740991 / 9007199254740992))"
proof -
  have nz: "((6::int) = 0) = False"
    by simp
  show ?thesis
    unfolding wilson_interval_def z_default_value
    by (simp only: nz if_False Let_def ebind.simps wilson_trace_6_6)
qed

lemma wilson_trace_10_100:
  shows "int_true_div 10 100 = Inr (Finite (3602879701896397 / 36028797018963968))"
    and "fpow2 (Finite (2206763817411543 / 1125899906842624)) = Inr (Finite (135164283816457 / 35184372088832))"
    and "float_of_int 100 = Inr (Finite 100)"
    and "fdiv (Finite (135164283816457 / 35184372088832)) (Finite 100) = Inr (Finite (5536329065122079 / 144115188075855872))"
    and "float_of_int (2 * 100) = Inr (Finite 200)"
    and "fmul (Finite (2206763817411543 / 1125899906842624)) (Finite (2206763817411543 / 1125899906842624)) = Finite (135164283816457 / 35184372088832)"
    and "fdiv (Finite (135164283816457 / 35184372088832)) (Finite 200) = Inr (Finite (5536329065122079 / 288230376151711744))"
    and "fadd (Finite (3602879701896397 / 36028797018963968)) (Finite (5536329065122079 / 288230376151711744)) = Finite (4294920835036657 / 36028797018963968)"
    and "fadd (Finite 1) (Finite (5536329065122079 / 144115188075855872)) = Finite (4676609910655561 / 4503599627370496)"
    and "fdiv (Finite (4294920835036657 / 36028797018963968)) (Finite (4676609910655561 / 4503599627370496)) = Inr (Finite (8272062131239613 / 72057594037927936))"
    and "float_of_int (4 * 100) = Inr (Finite 400)"
    and "fdiv (Finite (135164283816457 / 35184372088832)) (Finite 400) = Inr (Finite (5536329065122079 / 576460752303423488))"
    and "fsub (Finite 1) (Finite (3602879701896397 / 36028797018963968)) = Finite (8106479329266893 / 9007199254740992)"
    and "fmul (Finite (3602879701896397 / 36028797018963968)) (Finite (8106479329266893 / 9007199254740992)) = Finite (6485183463413515 / 72057594037927936)"
    and "fadd (Finite (6485183463413515 / 72057594037927936)) (Finite (5536329065122079 / 576460752303423488)) = Finite (7177224596553775 / 72057594037927936)"
    and "fdiv (Finite (7177224596553775 / 72057594037927936)) (Finite 100) = Inr (Finite (287088983862151 / 288230376151711744))"
    and "py_sqrt (Finite (287088983862151 / 288230376151711744)) = Inr (Finite (2274144974045197 / 72057594037927936))"
    and "fmul (Finite (2206763817411543 / 1125899906842624)) (Finite (2274144974045197 / 72057594037927936)) = Finite (2228662074564293 / 36028797018963968)"
    and "fdiv (Finite (2228662074564293 / 36028797018963968)) (Finite (4676609910655561 / 4503599627370496)) = Inr (Finite (67069160943335 / 1125899906842624))"
    and "fsub (Finite (8272062131239613 / 72057594037927936)) (Finite (67069160943335 / 1125899906842624)) = Finite (3979635830866173 / 72057594037927936)"
    and "fadd (Finite (8272062131239613 / 72057594037927936)) (Finite (67069160943335 / 1125899906842624)) = Finite (3141122107903263 / 18014398509481984)"
    and "py_max (Finite 0) (Finite (3979635830866173 / 72057594037927936)) = Finite (3979635830866173 / 72057594037927936)"
    and "py_min (Finite 1) (Finite (3141122107903263 / 18014398509481984)) = Finite (3141122107903263 / 18014398509481984)"
proof -
  show "int_true_div 10 100 = Inr (Finite (3602879701896397 / 36028797018963968))"
  proof -
    have "round_double (10 / 100) = (3602879701896397 / 36028797018963968)"
      using round_double_eq [of "-4" "10 / 100" "(1 / 72057594037927936)" "7205759403792794"]
      by (simp add: round_half_even_def tie_even_def floor_rat_numeral floor_rat_neg_numeral)
    then show ?thesis
      by (simp add: int_true_div_def fits_double)
  qed
  show "fpow2 (Finite (2206763817411543 / 1125899906842624)) = Inr (Finite (135164283816457 / 35184372088832))"
  proof -
    have "round_double ((2206763817411543 / 1125899906842624) * (2206763817411543 / 1125899906842624)) = (135164283816457 / 35184372088832)"
      using round_double_eq [of "1" "(2206763817411543 / 1125899906842624) * (2206763817411543 / 1125899906842624)" "(1 / 2251799813685248)" "8650514164253248"]
      by (simp add: round_half_even_def tie_even_def floor_rat_numeral floor_rat_neg_numeral)
    then show ?thesis
      by (simp add:  fits_double)
  qed
  show "float_of_int 100 = Inr (Finite 100)"
  proof -
    have "round_double (100) = 100"
      using round_double_eq [of "6" "100" "(1 / 70368744177664)" "7036874417766400"]
      by (simp add: round_half_even_def tie_even_def floor_rat_numeral floor_rat_neg_numeral)
    then show ?thesis
      by (simp add: float_of_int_def fits_double)
  qed
  show "fdiv (Finite (135164283816457 / 35184372088832)) (Finite 100) = Inr (Finite (5536329065122079 / 144115188075855872))"
  proof -
    have "round_double ((135164283816457 / 35184372088832) / 100) = (5536329065122079 / 144115188075855872)"
      using round_double_eq [of "-5" "(135164283816457 / 35184372088832) / 100" "(1 / 144115188075855872)" "5536329065122079"]
      by (simp add: round_half_even_def tie_even_def floor_rat_numeral floor_rat_neg_numeral)
    then show ?thesis
      by (simp add: to_float_def fits_double)
  qed
  show "float_of_int (2 * 100) = Inr (Finite 200)"
  proof -
    have "round_double (200) = 200"
      using round_double_eq [of "7" "200" "(1 / 35184372088832)" "7036874417766400"]
      by (simp add: round_half_even_def tie_even_def floor_rat_numeral floor_rat_neg_numeral)
    then show ?thesis
      by (simp add: float_of_int_def fits_double)
  qed
  show "fmul (Finite (2206763817411543 / 1125899906842624)) (Finite (2206763817411543 / 1125899906842624)) = Finite (135164283816457 / 35184372088832)"
  proof -
    have "round_double ((2206763817411543 / 1125899906842624) * (2206763817411543 / 1125899906842624)) = (135164283816457 / 35184372088832)"
      using round_double_eq [of "1" "(2206763817411543 / 1125899906842624) * (2206763817411543 / 1125899906842624)" "(1 / 2251799813685248)" "8650514164253248"]
      by (simp add: round_half_even_def tie_even_def floor_rat_numeral floor_rat_neg_numeral)
    then show ?thesis
      by (simp add: to_float_def fits_double)
  qed
  show "fdiv (Finite (135164283816457 / 35184372088832)) (Finite 200) = Inr (Finite (5536329065122079 / 288230376151711744))"
  proof -
    have "round_double ((135164283816457 / 35184372088832) / 200) = (5536329065122079 / 288230376151711744)"
      using round_double_eq [of "-6" "(135164283816457 / 35184372088832) / 200" "(1 / 288230376151711744)" "5536329065122079"]
      by (simp add: round_half_even_def tie_even_def floor_rat_numeral floor_rat_neg_numeral)
    then show ?thesis
      by (simp add: to_float_def fits_double)
  qed
  show "fadd (Finite (3602879701896397 / 36028797018963968)) (Finite (5536329065122079 / 288230376151711744)) = Finite (4294920835036657 / 36028797018963968)"
  proof -
    have "round_double ((3602879701896397 / 36028797018963968) + (5536329065122079 / 288230376151711744)) = (4294920835036657 / 36028797018963968)"
      using round_double_eq [of "-4" "(3602879701896397 / 36028797018963968) + (5536329065122079 / 288230376151711744)" "(1 / 72057594037927936)" "8589841670073314"]
      by (simp add: round_half_even_def tie_even_def floor_rat_numeral floor_rat_neg_numeral)
    then show ?thesis
      by (simp add: to_float_def fits_double)
  qed
  show "fadd (Finite 1) (Finite (5536329065122079 / 144115188075855872)) = Finite (4676609910655561 / 4503599627370496)"
  proof -
    have "round_double (1 + (5536329065122079 / 144115188075855872)) = (4676609910655561 / 4503599627370496)"
      using round_double_eq [of "0" "1 + (5536329065122079 / 144115188075855872)" "(1 / 4503599627370496)" "4676609910655561"]
      by (simp add: round_half_even_def tie_even_def floor_rat_numeral floor_rat_neg_numeral)
    then show ?thesis
      by (simp add: to_float_def fits_double)
  qed
  show "fdiv (Finite (4294920835036657 / 36028797018963968)) (Finite (4676609910655561 / 4503599627370496)) = Inr (Finite (8272062131239613 / 72057594037927936))"
  proof -
    have "round_double ((4294920835036657 / 36028797018963968) / (4676609910655561 / 4503599627370496)) = (8272062131239613 / 72057594037927936)"
      using round_double_eq [of "-4" "(4294920835036657 / 36028797018963968) / (4676609910655561 / 4503599627370496)" "(1 / 72057594037927936)" "8272062131239613"]
      by (simp add: round_half_even_def tie_even_def floor_rat_numeral floor_rat_neg_numeral)
    then show ?thesis
      by (simp add: to_float_def fits_double)
  qed
  show "float_of_int (4 * 100) = Inr (Finite 400)"
  proof -
    have "round_double (400) = 400"
      using round_double_eq [of "8" "400" "(1 / 17592186044416)" "7036874417766400"]
      by (simp add: round_half_even_def tie_even_def floor_rat_numeral floor_rat_neg_numeral)
    then show ?thesis
      by (simp add: float_of_int_def fits_double)
  qed
  show "fdiv (Finite (135164283816457 / 35184372088832)) (Finite 400) = Inr (Finite (5536329065122079 / 576460752303423488))"
  proof -
    have "round_double ((135164283816457 / 35184372088832) / 400) = (5536329065122079 / 576460752303423488)"
      using round_double_eq [of "-7" "(135164283816457 / 35184372088832) / 400" "(1 / 576460752303423488)" "5536329065122079"]
      by (simp add: round_half_even_def tie_even_def floor_rat_numeral floor_rat_neg_numeral)
    then show ?thesis
      by (simp add: to_float_def fits_double)
  qed
  show "fsub (Finite 1) (Finite (3602879701896397 / 36028797018963968)) = Finite (8106479329266893 / 9007199254740992)"
  proof -
    have "round_double (1 - (3602879701896397 / 36028797018963968)) = (8106479329266893 / 9007199254740992)"
      using round_double_eq [of "-1" "1 - (3602879701896397 / 36028797018963968)" "(1 / 9007199254740992)" "8106479329266893"]
      by (simp add: round_half_even_def tie_even_def floor_rat_numeral floor_rat_neg_numeral)
    then show ?thesis
      by (simp add: fsub_def to_float_def fits_double)
  qed
  show "fmul (Finite (3602879701896397 / 36028797018963968)) (Finite (8106479329266893 / 9007199254740992)) = Finite (6485183463413515 / 72057594037927936)"
  proof -
    have "round_double ((3602879701896397 / 36028797018963968) * (8106479329266893 / 9007199254740992)) = (6485183463413515 / 72057594037927936)"
      using round_double_eq [of "-4" "(3602879701896397 / 36028797018963968) * (8106479329266893 / 9007199254740992)" "(1 / 72057594037927936)" "6485183463413515"]
      by (simp add: round_half_even_def tie_even_def floor_rat_numeral floor_rat_neg_numeral)
    then show ?thesis
      by (simp add: to_float_def fits_double)
  qed
  show "fadd (Finite (6485183463413515 / 72057594037927936)) (Finite (5536329065122079 / 576460752303423488)) = Finite (7177224596553775 / 72057594037927936)"
  proof -
    have "round_double ((6485183463413515 / 72057594037927936) + (5536329065122079 / 576460752303423488)) = (7177224596553775 / 72057594037927936)"
      using round_double_eq [of "-4" "(6485183463413515 / 72057594037927936) + (5536329065122079 / 576460752303423488)" "(1 / 72057594037927936)" "7177224596553775"]
      by (simp add: round_half_even_def tie_even_def floor_rat_numeral floor_rat_neg_numeral)
    then show ?thesis
      by (simp add: to_float_def fits_double)
  qed
  show "fdiv (Finite (7177224596553775 / 72057594037927936)) (Finite 100) = Inr (Finite (287088983862151 / 288230376151711744))"
  proof -
    have "round_double ((7177224596553775 / 72057594037927936) / 100) = (287088983862151 / 288230376151711744)"
      using round_double_eq [of "-10" "(7177224596553775 / 72057594037927936) / 100" "(1 / 4611686018427387904)" "4593423741794416"]
      by (simp add: round_half_even_def tie_even_def floor_rat_numeral floor_rat_neg_numeral)
    then show ?thesis
      by (simp add: to_float_def fits_double)
  qed
  show "py_sqrt (Finite (287088983862151 / 288230376151711744)) = Inr (Finite (2274144974045197 / 72057594037927936))"
  proof -
    have "sqrt_double ((287088983862151 / 288230376151711744)) = (2274144974045197 / 72057594037927936)"
      using sqrt_double_eq [of "-5" "(287088983862151 / 288230376151711744)" "(1 / 144115188075855872)" "20686941451900121330922695950336" "4548289948090394" "4548289948090394"]
      by (simp add: sqrt_round_def floor_rat_numeral)
    then show ?thesis
      by simp
  qed
  show "fmul (Finite (2206763817411543 / 1125899906842624)) (Finite (2274144974045197 / 72057594037927936)) = Finite (2228662074564293 / 36028797018963968)"
  proof -
    have "round_double ((2206763817411543 / 1125899906842624) * (2274144974045197 / 72057594037927936)) = (2228662074564293 / 36028797018963968)"
      using round_double_eq [of "-5" "(2206763817411543 / 1125899906842624) * (2274144974045197 / 72057594037927936)" "(1 / 144115188075855872)" "8914648298257172"]
      by (simp add: round_half_even_def tie_even_def floor_rat_numeral floor_rat_neg_numeral)
    then show ?thesis
      by (simp add: to_float_def fits_double)
  qed
  show "fdiv (Finite (2228662074564293 / 36028797018963968)) (Finite (4676609910655561 / 4503599627370496)) = Inr (Finite (67069160943335 / 1125899906842624))"
  proof -
    have "round_double ((2228662074564293 / 36028797018963968) / (4676609910655561 / 4503599627370496)) = (67069160943335 / 1125899906842624)"
      using round_double_eq [of "-5" "(2228662074564293 / 36028797018963968) / (4676609910655561 / 4503599627370496)" "(1 / 144115188075855872)" "8584852600746880"]
      by (simp add: round_half_even_def tie_even_def floor_rat_numeral floor_rat_neg_numeral)
    then show ?thesis
      by (simp add: to_float_def fits_double)
  qed
  show "fsub (Finite (8272062131239613 / 72057594037927936)) (Finite (67069160943335 / 1125899906842624)) = Finite (3979635830866173 / 72057594037927936)"
  proof -
    have "round_double ((8272062131239613 / 72057594037927936) - (67069160943335 / 1125899906842624)) = (3979635830866173 / 72057594037927936)"
      using round_double_eq [of "-5" "(8272062131239613 / 72057594037927936) - (67069160943335 / 1125899906842624)" "(1 / 144115188075855872)" "7959271661732346"]
      by (simp add: round_half_even_def tie_even_def floor_rat_numeral floor_rat_neg_numeral)
    then show ?thesis
      by (simp add: fsub_def to_float_def fits_double)
  qed
  show "fadd (Finite (8272062131239613 / 72057594037927936)) (Finite (67069160943335 / 1125899906842624)) = Finite (3141122107903263 / 18014398509481984)"
  proof -
    have "round_double ((8272062131239613 / 72057594037927936) + (67069160943335 / 1125899906842624)) = (3141122107903263 / 18014398509481984)"
      using round_double_eq [of "-3" "(8272062131239613 / 72057594037927936) + (67069160943335 / 1125899906842624)" "(1 / 36028797018963968)" "6282244215806526"]
      by (simp add: round_half_even_def tie_even_def floor_rat_numeral floor_rat_neg_numeral)
    then show ?thesis
      by (simp add: to_float_def fits_double)
  qed
  show "py_max (Finite 0) (Finite (3979635830866173 / 72057594037927936)) = Finite (3979635830866173 / 72057594037927936)"
    by (simp add: py_max_def)
  show "py_min (Finite 1) (Finite (3141122107903263 / 18014398509481984)) = Finite (3141122107903263 / 18014398509481984)"
    by (simp add: py_min_def)
qed

lemma wilson_value_10_100:
  "wilson_interval 10 100 z_default = Inr (Finite (3602879701896397 / 36028797018963968), Finite (3979635830866173 / 72057594037927936), Finite (3141122107903263 / 18014398509481984))"
proof -
  have nz: "((100::int) = 0) = False"
    by simp
  show ?thesis
    unfolding wilson_interval_def z_default_value
    by (simp only: nz if_False Let_def ebind.simps wilson_trace_10_100)
qed

lemma wilson_trace_4000000000000001_4000000000000000:
  shows "int_true_div 4000000000000001 4000000000000000 = Inr (Finite (4503599627370497 / 4503599627370496))"
    and "fpow2 (Finite (2206763817411543 / 1125899906842624)) = Inr (Finite (135164283816457 / 35184372088832))"
    and "float_of_int 4000000000000000 = Inr (Finite 4000000000000000)"
    and "fdiv (Finite (135164283816457 / 35184372088832)) (Finite 4000000000000000) = Inr (Finite (2434903272918383 / 2535301200456458802993406410752))"
    and "float_of_int (2 * 4000000000000000) = Inr (Finite 8000000000000000)"
    and "fmul (Finite (2206763817411543 / 1125899906842624)) (Finite (2206763817411543 / 1125899906842624)) = Finite (135164283816457 / 35184372088832)"
    and "fdiv (Finite (135164283816457 / 35184372088832)) (Finite 8000000000000000) = Inr (Finite (2434903272918383 / 5070602400912917605986812821504))"
    and "fadd (Finite (4503599627370497 / 4503599627370496)) (Finite (2434903272918383 / 5070602400912917605986812821504)) = Finite (4503599627370499 / 4503599627370496)"
    and "fadd (Finite 1) (Finite (2434903272918383 / 2535301200456458802993406410752)) = Finite (1125899906842625 / 1125899906842624)"
    and "fdiv (Finite (4503599627370499 / 4503599627370496)) (Finite (1125899906842625 / 1125899906842624)) = Inr (Finite (4503599627370495 / 4503599627370496))"
    and "float_of_int (4 * 4000000000000000) = Inr (Finite 16000000000000000)"
    and "fdiv (Finite (135164283816457 / 35184372088832)) (Finite 16000000000000000) = Inr (Finite (2434903272918383 / 10141204801825835211973625643008))"
    and "fsub (Finite 1) (Finite (4503599627370497 / 4503599627370496)) = Finite (- (1 / 4503599627370496))"
    and "fmul (Finite (4503599627370497 / 4503599627370496)) (Finite (- (1 / 4503599627370496))) = Finite (- (4503599627370497 / 20282409603651670423947251286016))"
    and "fadd (Finite (- (4503599627370497 / 20282409603651670423947251286016))) (Finite (2434903272918383 / 10141204801825835211973625643008)) = Finite (366206918466269 / 20282409603651670423947251286016)"
    and "fdiv (Finite (366206918466269 / 20282409603651670423947251286016)) (Finite 4000000000000000) = Inr (Finite (6596997366180747 / 1461501637330902918203684832716283019655932542976))"
    and "py_sqrt (Finite (6596997366180747 / 1461501637330902918203684832716283019655932542976)) = Inr (Finite (5450709575834669 / 81129638414606681695789005144064))"
    and "fmul (Finite (2206763817411543 / 1125899906842624)) (Finite (5450709575834669 / 81129638414606681695789005144064)) = Finite (667711923039747 / 5070602400912917605986812821504)"
    and "fdiv (Finite (667711923039747 / 5070602400912917605986812821504)) (Finite (1125899906842625 / 1125899906842624)) = Inr (Finite (5341695384317971 / 40564819207303340847894502572032))"
    and "fsub (Finite (4503599627370495 / 4503599627370496)) (Finite (5341695384317971 / 40564819207303340847894502572032)) = Finite (9007199254740989 / 9007199254740992)"
    and "fadd (Finite (4503599627370495 / 4503599627370496)) (Finite (5341695384317971 / 40564819207303340847894502572032)) = Finite (9007199254740991 / 9007199254740992)"
    and "py_max (Finite 0) (Finite (9007199254740989 / 9007199254740992)) = Finite (9007199254740989 / 9007199254740992)"
    and "py_min (Finite 1) (Finite (9007199254740991 / 9007199254740992)) = Finite (9007199254740991 / 9007199254740992)"
proof -
  show "int_true_div 4000000000000001 4000000000000000 = Inr (Finite (4503599627370497 / 4503599627370496))"
  proof -
    have "round_double (4000000000000001 / 4000000000000000) = (4503599627370497 / 4503599627370496)"
      using round_double_eq [of "0" "4000000000000001 / 4000000000000000" "(1 / 4503599627370496)" "4503599627370497"]
      by (simp add: round_half_even_def tie_even_def floor_rat_numeral floor_rat_neg_numeral)
    then show ?thesis
      by (simp add: int_true_div_def fits_double)
  qed
  show "fpow2 (Finite (2206763817411543 / 1125899906842624)) = Inr (Finite (135164283816457 / 35184372088832))"
  proof -
    have "round_double ((2206763817411543 / 1125899906842624) * (2206763817411543 / 1125899906842624)) = (135164283816457 / 35184372088832)"
      using round_double_eq [of "1" "(2206763817411543 / 1125899906842624) * (2206763817411543 / 1125899906842624)" "(1 / 2251799813685248)" "8650514164253248"]
      by (simp add: round_half_even_def tie_even_def floor_rat_numeral floor_rat_neg_numeral)
    then show ?thesis
      by (simp add:  fits_double)
  qed
  show "float_of_int 4000000000000000 = Inr (Finite 4000000000000000)"
  proof -
    have "round_double (4000000000000000) = 4000000000000000"
      using round_double_eq [of "51" "4000000000000000" "(1 / 2)" "8000000000000000"]
      by (simp add: round_half_even_def tie_even_def floor_rat_numeral floor_rat_neg_numeral)
    then show ?thesis
      by (simp add: float_of_int_def fits_double)
  qed
  show "fdiv (Finite (135164283816457 / 35184372088832)) (Finite 4000000000000000) = Inr (Finite (2434903272918383 / 2535301200456458802993406410752))"
  proof -
    have "round_double ((135164283816457 / 35184372088832) / 4000000000000000) = (2434903272918383 / 2535301200456458802993406410752)"
      using round_double_eq [of "-50" "(135164283816457 / 35184372088832) / 4000000000000000" "(1 / 5070602400912917605986812821504)" "4869806545836766"]
      by (simp add: round_half_even_def tie_even_def floor_rat_numeral floor_rat_neg_numeral)
    then show ?thesis
      by (simp add: to_float_def fits_double)
  qed
  show "float_of_int (2 * 4000000000000000) = Inr (Finite 8000000000000000)"
  proof -
    have "round_double (8000000000000000) = 8000000000000000"
      using round_double_eq [of "52" "8000000000000000" "1" "8000000000000000"]
      by (simp add: round_half_even_def tie_even_def floor_rat_numeral floor_rat_neg_numeral)
    then show ?thesis
      by (simp add: float_of_int_def fits_double)
  qed
  show "fmul (Finite (2206763817411543 / 1125899906842624)) (Finite (2206763817411543 / 1125899906842624)) = Finite (135164283816457 / 35184372088832)"
  proof -
    have "round_double ((2206763817411543 / 1125899906842624) * (2206763817411543 / 1125899906842624)) = (135164283816457 / 35184372088832)"
      using round_double_eq [of "1" "(2206763817411543 / 1125899906842624) * (2206763817411543 / 1125899906842624)" "(1 / 2251799813685248)" "8650514164253248"]
      by (simp add: round_half_even_def tie_even_def floor_rat_numeral floor_rat_neg_numeral)
    then show ?thesis
      by (simp add: to_float_def fits_double)
  qed
  show "fdiv (Finite (135164283816457 / 35184372088832)) (Finite 8000000000000000) = Inr (Finite (2434903272918383 / 5070602400912917605986812821504))"
  proof -
    have "round_double ((135164283816457 / 35184372088832) / 8000000000000000) = (2434903272918383 / 5070602400912917605986812821504)"
      using round_double_eq [of "-51" "(135164283816457 / 35184372088832) / 8000000000000000" "(1 / 10141204801825835211973625643008)" "4869806545836766"]
      by (simp add: round_half_even_def tie_even_def floor_rat_numeral floor_rat_neg_numeral)
    then show ?thesis
      by (simp add: to_float_def fits_double)
  qed
  show "fadd (Finite (4503599627370497 / 4503599627370496)) (Finite (2434903272918383 / 5070602400912917605986812821504)) = Finite (4503599627370499 / 4503599627370496)"
  proof -
    have "round_double ((4503599627370497 / 4503599627370496) + (2434903272918383 / 5070602400912917605986812821504)) = (4503599627370499 / 4503599627370496)"
      using round_double_eq [of "0" "(4503599627370497 / 4503599627370496) + (2434903272918383 / 5070602400912917605986812821504)" "(1 / 4503599627370496)" "4503599627370499"]
      by (simp add: round_half_even_def tie_even_def floor_rat_numeral floor_rat_neg_numeral)
    then show ?thesis
      by (simp add: to_float_def fits_double)
  qed
  show "fadd (Finite 1) (Finite (2434903272918383 / 2535301200456458802993406410752)) = Finite (1125899906842625 / 1125899906842624)"
  proof -
    have "round_double (1 + (2434903272918383 / 2535301200456458802993406410752)) = (1125899906842625 / 1125899906842624)"
      using round_double_eq [of "0" "1 + (2434903272918383 / 2535301200456458802993406410752)" "(1 / 4503599627370496)" "4503599627370500"]
      by (simp add: round_half_even_def tie_even_def floor_rat_numeral floor_rat_neg_numeral)
    then show ?thesis
      by (simp add: to_float_def fits_double)
  qed
  show "fdiv (Finite (4503599627370499 / 4503599627370496)) (Finite (1125899906842625 / 1125899906842624)) = Inr (Finite (4503599627370495 / 4503599627370496))"
  proof -
    have "round_double ((4503599627370499 / 4503599627370496) / (1125899906842625 / 1125899906842624)) = (4503599627370495 / 4503599627370496)"
      using round_double_eq [of "-1" "(4503599627370499 / 4503599627370496) / (1125899906842625 / 1125899906842624)" "(1 / 9007199254740992)" "9007199254740990"]
      by (simp add: round_half_even_def tie_even_def floor_rat_numeral floor_rat_neg_numeral)
    then show ?thesis
      by (simp add: to_float_def fits_double)
  qed
  show "float_of_int (4 * 4000000000000000) = Inr (Finite 16000000000000000)"
  proof -
    have "round_double (16000000000000000) = 16000000000000000"
      using round_double_eq [of "53" "16000000000000000" "2" "8000000000000000"]
      by (simp add: round_half_even_def tie_even_def floor_rat_numeral floor_rat_neg_numeral)
    then show ?thesis
      by (simp add: float_of_int_def fits_double)
  qed
  show "fdiv (Finite (135164283816457 / 35184372088832)) (Finite 16000000000000000) = Inr (Finite (2434903272918383 / 10141204801825835211973625643008))"
  proof -
    have "round_double ((135164283816457 / 35184372088832) / 16000000000000000) = (2434903272918383 / 10141204801825835211973625643008)"
      using round_double_eq [of "-52" "(135164283816457 / 35184372088832) / 16000000000000000" "(1 / 20282409603651670423947251286016)" "4869806545836766"]
      by (simp add: round_half_even_def tie_even_def floor_rat_numeral floor_rat_neg_numeral)
    then show ?thesis
      by (simp add: to_float_def fits_double)
  qed
  show "fsub (Finite 1) (Finite (4503599627370497 / 4503599627370496)) = Finite (- (1 / 4503599627370496))"
  proof -
    have "round_double (1 - (4503599627370497 / 4503599627370496)) = (- (1 / 4503599627370496))"
      using round_double_eq [of "-52" "1 - (4503599627370497 / 4503599627370496)" "(1 / 20282409603651670423947251286016)" "-4503599627370496"]
      by (simp add: round_half_even_def tie_even_def floor_rat_numeral floor_rat_neg_numeral)
    then show ?thesis
      by (simp add: fsub_def to_float_def fits_double)
  qed
  show "fmul (Finite (4503599627370497 / 4503599627370496)) (Finite (- (1 / 4503599627370496))) = Finite (- (4503599627370497 / 20282409603651670423947251286016))"
  proof -
    have "round_double ((4503599627370497 / 4503599627370496) * (- (1 / 4503599627370496))) = (- (4503599627370497 / 20282409603651670423947251286016))"
      using round_double_eq [of "-52" "(4503599627370497 / 4503599627370496) * (- (1 / 4503599627370496))" "(1 / 20282409603651670423947251286016)" "-4503599627370497"]
      by (simp add: round_half_even_def tie_even_def floor_rat_numeral floor_rat_neg_numeral)
    then show ?thesis
      by (simp add: to_float_def fits_double)
  qed
  show "fadd (Finite (- (4503599627370497 / 20282409603651670423947251286016))) (Finite (2434903272918383 / 10141204801825835211973625643008)) = Finite (366206918466269 / 20282409603651670423947251286016)"
  proof -
    have "round_double ((- (4503599627370497 / 20282409603651670423947251286016)) + (2434903272918383 / 10141204801825835211973625643008)) = (366206918466269 / 20282409603651670423947251286016)"
      using round_double_eq [of "-56" "(- (4503599627370497 / 20282409603651670423947251286016)) + (2434903272918383 / 10141204801825835211973625643008)" "(1 / 324518553658426726783156020576256)" "5859310695460304"]
      by (simp add: round_half_even_def tie_even_def floor_rat_numeral floor_rat_neg_numeral)
    then show ?thesis
      by (simp add: to_float_def fits_double)
  qed
  show "fdiv (Finite (366206918466269 / 20282409603651670423947251286016)) (Finite 4000000000000000) = Inr (Finite (6596997366180747 / 1461501637330902918203684832716283019655932542976))"
  proof -
    have "round_double ((366206918466269 / 20282409603651670423947251286016) / 4000000000000000) = (6596997366180747 / 1461501637330902918203684832716283019655932542976)"
      using round_double_eq [of "-108" "(366206918466269 / 20282409603651670423947251286016) / 4000000000000000" "(1 / 1461501637330902918203684832716283019655932542976)" "6596997366180747"]
      by (simp add: round_half_even_def tie_even_def floor_rat_numeral floor_rat_neg_numeral)
    then show ?thesis
      by (simp add: to_float_def fits_double)
  qed
  show "py_sqrt (Finite (6596997366180747 / 1461501637330902918203684832716283019655932542976)) = Inr (Finite (5450709575834669 / 81129638414606681695789005144064))"
  proof -
    have "sqrt_double ((6596997366180747 / 1461501637330902918203684832716283019655932542976)) = (5450709575834669 / 81129638414606681695789005144064)"
      using sqrt_double_eq [of "-54" "(6596997366180747 / 1461501637330902918203684832716283019655932542976)" "(1 / 81129638414606681695789005144064)" "29710234880095755739961871040512" "5450709575834668" "5450709575834669"]
      by (simp add: sqrt_round_def floor_rat_numeral)
    then show ?thesis
      by simp
  qed
  show "fmul (Finite (2206763817411543 / 1125899906842624)) (Finite (5450709575834669 / 81129638414606681695789005144064)) = Finite (667711923039747 / 5070602400912917605986812821504)"
  proof -
    have "round_double ((2206763817411543 / 1125899906842624) * (5450709575834669 / 81129638414606681695789005144064)) = (667711923039747 / 5070602400912917605986812821504)"
      using round_double_eq [of "-53" "(2206763817411543 / 1125899906842624) * (5450709575834669 / 81129638414606681695789005144064)" "(1 / 40564819207303340847894502572032)" "5341695384317976"]
      by (simp add: round_half_even_def tie_even_def floor_rat_numeral floor_rat_neg_numeral)
    then show ?thesis
      by (simp add: to_float_def fits_double)
  qed
  show "fdiv (Finite (667711923039747 / 5070602400912917605986812821504)) (Finite (1125899906842625 / 1125899906842624)) = Inr (Finite (5341695384317971 / 40564819207303340847894502572032))"
  proof -
    have "round_double ((667711923039747 / 5070602400912917605986812821504) / (1125899906842625 / 1125899906842624)) = (5341695384317971 / 40564819207303340847894502572032)"
      using round_double_eq [of "-53" "(667711923039747 / 5070602400912917605986812821504) / (1125899906842625 / 1125899906842624)" "(1 / 40564819207303340847894502572032)" "5341695384317971"]
      by (simp add: round_half_even_def tie_even_def floor_rat_numeral floor_rat_neg_numeral)
    then show ?thesis
      by (simp add: to_float_def fits_double)
  qed
  show "fsub (Finite (4503599627370495 / 4503599627370496)) (Finite (5341695384317971 / 40564819207303340847894502572032)) = Finite (9007199254740989 / 9007199254740992)"
  proof -
    have "round_double ((4503599627370495 / 4503599627370496) - (5341695384317971 / 40564819207303340847894502572032)) = (9007199254740989 / 9007199254740992)"
      using round_double_eq [of "-1" "(4503599627370495 / 4503599627370496) - (5341695384317971 / 40564819207303340847894502572032)" "(1 / 9007199254740992)" "9007199254740989"]
      by (simp add: round_half_even_def tie_even_def floor_rat_numeral floor_rat_neg_numeral)
    then show ?thesis
      by (simp add: fsub_def to_float_def fits_double)
  qed
  show "fadd (Finite (4503599627370495 / 4503599627370496)) (Finite (5341695384317971 / 40564819207303340847894502572032)) = Finite (9007199254740991 / 9007199254740992)"
  proof -
    have "round_double ((4503599627370495 / 4503599627370496) + (5341695384317971 / 40564819207303340847894502572032)) = (9007199254740991 / 9007199254740992)"
      using round_double_eq [of "-1" "(4503599627370495 / 4503599627370496) + (5341695384317971 / 40564819207303340847894502572032)" "(1 / 9007199254740992)" "9007199254740991"]
      by (simp add: round_half_even_def tie_even_def floor_rat_numeral floor_rat_neg_numeral)
    then show ?thesis
      by (simp add: to_float_def fits_double)
  qed
  show "py_max (Finite 0) (Finite (9007199254740989 / 9007199254740992)) = Finite (9007199254740989 / 9007199254740992)"
    by (simp add: py_max_def)
  show "py_min (Finite 1) (Finite (9007199254740991 / 9007199254740992)) = Finite (9007199254740991 / 9007199254740992)"
    by (simp add: py_min_def)
qed

lemma wilson_value_4000000000000001_4000000000000000:
  "wilson_interval 4000000000000001 4000000000000000 z_default = Inr (Finite (4503599627370497 / 4503599627370496), Finite (9007199254740989 / 9007199254740992), Finite (9007199254740991 / 9007199254740992))"
proof -
  have nz: "((4000000000000000::int) = 0) = False"
    by simp
  show ?thesis
    unfolding wilson_interval_def z_default_value
    by (simp only: nz if_False Let_def ebind.simps wilson_trace_4000000000000001_4000000000000000)
qed

subsection \<open>What a returned triple says about the call\<close>

lemma ebind_Inr_iff: "ebind m f = Inr y \<longleftrightarrow> (\<exists>x. m = Inr x \<and> f x = Inr y)"
  by (cases m) simp_all

lemma checked_rounded_Inr: "checked_rounded r = Inr y \<Longrightarrow> y = Finite r"
  by (simp add: checked_rounded_def split: if_splits)

lemma wilson_interval_point:
  assumes "wilson_interval k n z = Inr (p, l, u)" "n \<noteq> 0"
  shows "p = Finite (round_double (of_int k / of_int n))"
proof -
  from assms obtain x where "int_true_div k n = Inr x" "x = p"
    by (auto simp add: wilson_interval_def ebind_Inr_iff Let_def)
  then show ?thesis
    using assms(2) by (auto simp add: int_true_div_def dest: checked_rounded_Inr)
qed

section \<open>The formula in exact arithmetic\<close>

text \<open>
  Two facts about the formula without rounding. With \<open>z = 1.96\<close> the argument of the
  square root is negative for all clicks above impressions: the exception of the program
  there is the formula's, not an effect of rounding. And for clicks within impressions the
  clamped bounds enclose the point estimate: where the program's bounds do not, that is
  an effect of rounding.
\<close>

lemma wilson_radicand_exact_negative:
  assumes "1 \<le> n" "n + 1 \<le> k"
  shows "wilson_radicand_exact k n (196 / 100) < 0"
proof -
  have n: "0 < n" using assms by simp
  have "k * 1 \<le> k * (k - n)"
    using assms by (intro mult_left_mono) simp_all
  then have "n + 1 \<le> k * k - k * n"
    using assms(2) by (simp add: algebra_simps)
  then have "k * n - k * k + (196 / 100 * (196 / 100) / 4) * n < 0"
    using n by simp
  moreover have "k / n * (1 - k / n) + 196 / 100 * (196 / 100) / (4 * n)
      = (k * n - k * k + (196 / 100 * (196 / 100) / 4) * n) / (n * n)"
    using n by (simp add: field_simps)
  ultimately have "k / n * (1 - k / n) + 196 / 100 * (196 / 100) / (4 * n) < 0"
    using n by (simp add: divide_neg_pos)
  then show ?thesis
    using n by (simp add: wilson_radicand_exact_def divide_neg_pos)
qed

lemma wilson_exact_encloses_point:
  assumes "0 \<le> k" "k \<le> n" "0 < n" "0 < z" "wilson_exact k n z = (p, l, u)"
  shows "0 \<le> l \<and> l \<le> p \<and> p \<le> u \<and> u \<le> 1"
proof -
  define phat where "phat = k / n"
  define a where "a = z\<^sup>2 / n"
  define denom where "denom = 1 + a"
  define center where "center = (phat + a / 2) / denom"
  define r where "r = wilson_radicand_exact k n z"
  define half where "half = z * sqrt r / denom"
  have ph: "0 \<le> phat" "phat \<le> 1"
    using assms by (simp_all add: phat_def)
  have a: "0 < a" using assms by (simp add: a_def)
  have d: "0 < denom" using a by (simp add: denom_def)
  have r: "r = (phat * (1 - phat) + a / 4) / n"
    by (simp add: r_def wilson_radicand_exact_def phat_def a_def power2_eq_square)
  have q: "0 \<le> phat * (1 - phat)" using ph by simp
  have r0: "0 \<le> r" using q a assms(3) by (simp add: r)
  have "z\<^sup>2 * r = a * (phat * (1 - phat) + a / 4)"
    using assms(3) by (simp add: r a_def)
  then have zr: "(z * sqrt r)\<^sup>2 = a * (phat * (1 - phat) + a / 4)"
    using r0 by (simp add: power_mult_distrib)
  have "(a * (1 / 2 - phat))\<^sup>2 = a * (a * (1 / 4 - phat * (1 - phat)))"
    by (simp add: power2_eq_square algebra_simps)
  also have "\<dots> \<le> a * (phat * (1 - phat) + a / 4)"
  proof -
    have "0 \<le> a * (phat * (1 - phat))" using q a by simp
    then have "a * (1 / 4 - phat * (1 - phat)) \<le> phat * (1 - phat) + a / 4"
      using q by (simp add: algebra_simps)
    then show ?thesis using a by (simp add: mult_left_mono)
  qed
  finally have "(a * (1 / 2 - phat))\<^sup>2 \<le> (z * sqrt r)\<^sup>2"
    by (simp only: zr)
  moreover have "0 \<le> z * sqrt r" using assms(4) r0 by simp
  ultimately have "\<bar>a * (1 / 2 - phat)\<bar> \<le> z * sqrt r"
    by (metis abs_le_square_iff abs_of_nonneg)
  then have "\<bar>a * (1 / 2 - phat)\<bar> / denom \<le> half"
    using d by (simp add: half_def divide_right_mono)
  moreover have "center - phat = a * (1 / 2 - phat) / denom"
    using d by (simp add: center_def denom_def field_simps)
  ultimately have "\<bar>center - phat\<bar> \<le> half"
    using d by simp
  then have enc: "center - half \<le> phat" "phat \<le> center + half"
    by (simp_all add: abs_le_iff)
  have c: "(k / n + z * z / (2 * n)) / (1 + z\<^sup>2 / n) = center"
    by (simp add: center_def denom_def phat_def a_def power2_eq_square)
  have h: "z * sqrt (wilson_radicand_exact k n z) / (1 + z\<^sup>2 / n) = half"
    by (simp add: half_def r_def denom_def a_def)
  have "wilson_exact k n z = (phat, max 0 (center - half), min 1 (center + half))"
    by (simp only: wilson_exact_def Let_def c h phat_def)
  with assms(5) have "p = phat" "l = max 0 (center - half)" "u = min 1 (center + half)"
    by simp_all
  then show ?thesis
    using enc ph by simp
qed

section \<open>Claims about the aggregator\<close>

text \<open>
  C1. Claimed: for every pair of non-negative integers clicks and impressions, clicks
  above impressions included, \<open>wilson_interval(clicks, impressions, 1.96)\<close> raises no
  exception, the argument of the square root being non-negative.

  The code does raise. With 2 clicks on 1 impression \<open>phat\<close> is 2, the argument of the
  square root is \<open>(2 * (1 - 2) + z * z / 4) / 1\<close>, about \<open>-1.04\<close>, and
  \<^verbatim>\<open>math.sqrt\<close> raises \<open>ValueError\<close>. By \<open>wilson_radicand_exact_negative\<close> the
  argument is negative, before any rounding, whenever clicks exceed impressions.
\<close>

theorem wilson_interval_2_1_raises:
  "wilson_interval 2 1 z_default = Inl ValueError"
  by (rule wilson_value_2_1)

text \<open>
  C2. Claimed: for \<open>0 \<le> clicks \<le> impressions\<close> and \<open>impressions > 0\<close> the returned triple
  satisfies \<open>0 \<le> lowerBound \<le> pointEstimate \<le> upperBound \<le> 1\<close>.

  In exact arithmetic the bounds enclose the point estimate
  (\<open>wilson_exact_encloses_point\<close>); in doubles the last rounding can leave them one unit
  short. With 6 clicks on 6 impressions the point estimate is
  \<open>1.0\<close> and the upper bound is \<open>1 - 2 powi (- 53)\<close>, printed
  \<open>0.9999999999999999\<close>.
\<close>

theorem wilson_interval_6_6_upper_below_point:
  "wilson_interval 6 6 z_default =
     Inr (Finite 1, Finite (5491301772927771 / 9007199254740992),
          Finite (9007199254740991 / 9007199254740992))
   \<and> (9007199254740991 / 9007199254740992 :: rat) < 1"
  by (simp add: wilson_value_6_6)

text \<open>
  C4. \<open>wilson_interval(0, 0, z)\<close> returns exactly \<open>(0.0, 0.0, 0.0)\<close>, and so does every
  call with \<open>impressions = 0\<close>, whatever the clicks and \<open>z\<close>: the degenerate case is a
  value, not an error.
\<close>

theorem wilson_interval_no_impressions:
  "wilson_interval clicks 0 z = Inr (Finite 0, Finite 0, Finite 0)"
  by (simp add: wilson_interval_def)

text \<open>
  C5. Claimed: for every pair of non-negative integers clicks and impressions, with no
  relation between them, the returned triple has its three components in \<open>[0, 1]\<close> and
  \<open>lowerBound \<le> pointEstimate \<le> upperBound\<close>.

  This fails when clicks exceed impressions. With 5 clicks on 4 impressions no triple is
  returned at all; with \<open>4 * 10 ^ 15 + 1\<close> clicks on \<open>4 * 10 ^ 15\<close> impressions the
  rounding hides the negative term, a triple is returned, and its point estimate is the
  unclamped quotient \<open>1 + 2 powi (- 52)\<close>, above 1.
\<close>

theorem wilson_interval_clicks_above_impressions:
  "wilson_interval 5 4 z_default = Inl ValueError
   \<and> wilson_interval 4000000000000001 4000000000000000 z_default =
       Inr (Finite (4503599627370497 / 4503599627370496),
            Finite (9007199254740989 / 9007199254740992),
            Finite (9007199254740991 / 9007199254740992))
   \<and> (1::rat) < 4503599627370497 / 4503599627370496"
  by (simp add: wilson_value_5_4 wilson_value_4000000000000001_4000000000000000)

text \<open>
  C5, as amended. For \<open>0 \<le> clicks \<le> impressions\<close>, with impressions up to \<open>2 ^ 1021\<close>
  (far beyond any count the store can hold; above it \<open>4 * n\<close> no longer converts to a
  float), the call returns a triple of finite doubles, each in \<open>[0, 1]\<close>, with
  \<open>lowerBound \<le> upperBound\<close>. Nothing is said here of the place of the point estimate
  between the two bounds.
\<close>

theorem wilson_interval_unit_interval:
  assumes "0 \<le> clicks" "clicks \<le> impressions" "impressions \<le> 2 ^ 1021"
  shows "\<exists>p l u. wilson_interval clicks impressions z_default = Inr (Finite p, Finite l, Finite u)
           \<and> 0 \<le> p \<and> p \<le> 1 \<and> 0 \<le> l \<and> l \<le> 1 \<and> 0 \<le> u \<and> u \<le> 1 \<and> l \<le> u"
proof (cases "impressions = 0")
  case True
  then show ?thesis
    by (simp add: wilson_interval_def)
next
  case False
  with assms have n: "0 < impressions" by simp
  obtain z where z: "z_default = Finite z" "0 \<le> z" "z \<le> 2"
    using z_default_range by blast
  from wilson_interval_in_range [OF assms(1,2) n assms(3) z(2,3)]
  obtain p l u where
    "wilson_interval clicks impressions (Finite z) = Inr (Finite p, Finite l, Finite u)"
    "0 \<le> p" "p \<le> 1" "0 \<le> l" "l \<le> u" "u \<le> 1"
    by blast
  then show ?thesis
    unfolding z(1) by (intro exI [of _ p] exI [of _ l] exI [of _ u]) simp
qed

theorem wilson_interval_unit_interval_witness:
  "(0::int) \<le> 3 \<and> (3::int) \<le> 7 \<and> (7::int) \<le> 2 ^ 1021
   \<and> (\<exists>p l u. wilson_interval 3 7 z_default = Inr (Finite p, Finite l, Finite u)
          \<and> 0 \<le> p \<and> p \<le> 1 \<and> 0 \<le> l \<and> l \<le> 1 \<and> 0 \<le> u \<and> u \<le> 1 \<and> l \<le> u)"
proof -
  have h: "(0::int) \<le> 3" "(3::int) \<le> 7" "(7::int) \<le> 2 ^ 1021"
    by simp_all
  from wilson_interval_unit_interval [OF h] h show ?thesis
    by blast
qed

text \<open>
  C8. For fixed \<open>impressions > 0\<close> and clicks \<open>c1 \<le> c2\<close>, the point estimate returned for
  \<open>c1\<close> is at most the one returned for \<open>c2\<close>: whenever both calls return, the two
  point estimates are finite doubles in that order. The rounding of the quotient is
  monotone, so no pair of counts turns the order around.
\<close>

theorem wilson_interval_point_monotone:
  assumes "0 < impressions" "c1 \<le> c2"
    and "wilson_interval c1 impressions z = Inr (p1, l1, u1)"
    and "wilson_interval c2 impressions z = Inr (p2, l2, u2)"
  shows "\<exists>a b. p1 = Finite a \<and> p2 = Finite b \<and> a \<le> b"
proof -
  have n: "impressions \<noteq> 0" using assms(1) by simp
  have "(of_int c1 :: rat) / of_int impressions \<le> of_int c2 / of_int impressions"
    using assms(1,2) by (simp add: divide_right_mono)
  then have "round_double (of_int c1 / of_int impressions)
      \<le> round_double (of_int c2 / of_int impressions)"
    by (rule round_double_mono)
  then show ?thesis
    using wilson_interval_point [OF assms(3) n] wilson_interval_point [OF assms(4) n] by blast
qed

theorem wilson_interval_point_monotone_witness:
  "(0::int) < 6 \<and> (5::int) \<le> 6
   \<and> (\<exists>l1 u1 l2 u2. wilson_interval 5 6 z_default = Inr (Finite (round_double (5 / 6)), l1, u1)
          \<and> wilson_interval 6 6 z_default = Inr (Finite 1, l2, u2))
   \<and> round_double (5 / 6) \<le> 1"
proof -
  have h: "(0::int) < 6" "(5::int) \<le> 6"
    by simp_all
  obtain z where z: "z_default = Finite z" "0 \<le> z" "z \<le> 2"
    using z_default_range by blast
  have "(0::int) \<le> 5" "(5::int) \<le> 6" "(0::int) < 6" "(6::int) \<le> 2 ^ 1021"
    by simp_all
  from wilson_interval_in_range [OF this z(2,3)]
  obtain l1 u1 where r1: "wilson_interval 5 6 z_default = Inr (Finite (round_double (5 / 6)), Finite l1, Finite u1)"
    unfolding z(1) by auto
  have r2: "wilson_interval 6 6 z_default =
      Inr (Finite 1, Finite (5491301772927771 / 9007199254740992),
           Finite (9007199254740991 / 9007199254740992))"
    by (rule wilson_value_6_6)
  from wilson_interval_point_monotone [OF h r1 r2]
  have "round_double (5 / 6) \<le> 1" by simp
  with h r1 r2 show ?thesis by blast
qed

text \<open>
  C9. Claimed: \<open>wilson_interval(10, 100, 1.96)\<close> returns point estimate \<open>0.10\<close>, lower
  bound about \<open>0.0554\<close> and upper bound about \<open>0.1737\<close>, to four decimal places.

  The point estimate is right. The two bounds are \<open>0.05522854...\<close> and
  \<open>0.17436730...\<close>: neither is within half a unit of the fourth decimal of the claimed
  figure.
\<close>

theorem wilson_interval_10_100_not_as_claimed:
  "wilson_interval 10 100 z_default =
     Inr (Finite (3602879701896397 / 36028797018963968),
          Finite (3979635830866173 / 72057594037927936),
          Finite (3141122107903263 / 18014398509481984))
   \<and> \<not> \<bar>3979635830866173 / 72057594037927936 - 554 / 10000 :: rat\<bar> \<le> 1 / 20000
   \<and> \<not> \<bar>3141122107903263 / 18014398509481984 - 1737 / 10000 :: rat\<bar> \<le> 1 / 20000"
  by (simp add: wilson_value_10_100)

text \<open>
  C9, as amended. \<open>wilson_interval(10, 100, 1.96)\<close> returns the double nearest to
  \<open>1 / 10\<close> as point estimate, a lower bound that is \<open>0.0552\<close> and an upper bound that is
  \<open>0.1744\<close> to four decimal places, which are the figures of the Wilson score interval.
\<close>

theorem wilson_interval_10_100_value:
  "\<exists>p l u. wilson_interval 10 100 z_default = Inr (Finite p, Finite l, Finite u)
     \<and> p = round_double (1 / 10)
     \<and> \<bar>l - 552 / 10000\<bar> \<le> 1 / 20000
     \<and> \<bar>u - 1744 / 10000\<bar> \<le> 1 / 20000"
proof -
  have "round_double (1 / 10) = 3602879701896397 / 36028797018963968"
    by code_simp
  then show ?thesis
    by (intro exI [of _ "3602879701896397 / 36028797018963968"]
        exI [of _ "3979635830866173 / 72057594037927936"]
        exI [of _ "3141122107903263 / 18014398509481984"])
      (simp add: wilson_value_10_100)
qed

section \<open>The digest as a number\<close>

lemma digit_value_hexdigit:
  assumes "d < 16"
  shows "digit_value (hexdigit d) = Some (int d)"
proof -
  have "list_all (\<lambda>d. digit_value (hexdigit d) = Some (int d)) [0..<16]"
    by code_simp
  moreover have "d \<in> set [0..<16]"
    using assms by simp
  ultimately show ?thesis
    by (simp only: list_all_iff)
qed

lemma hex_value_hex_byte:
  "hex_value acc (hex_byte b @ cs) = hex_value (256 * acc + uint b) cs"
proof -
  have lt: "unat b < 256"
    using unsigned_less [of b, where ?'a = nat] by simp
  then have d1: "unat b div 16 < 16" and d2: "unat b mod 16 < 16"
    by simp_all
  have "16 * (unat b div 16) + unat b mod 16 = unat b"
    by simp
  then have "16 * int (unat b div 16) + int (unat b mod 16) = uint b"
    by (metis of_nat_add of_nat_mult of_nat_numeral uint_nat)
  then have key: "16 * (16 * acc + int (unat b div 16)) + int (unat b mod 16) = 256 * acc + uint b"
    by simp
  have "hex_value acc (hex_byte b @ cs)
      = hex_value (16 * (16 * acc + int (unat b div 16)) + int (unat b mod 16)) cs"
    by (simp add: hex_byte_def digit_value_hexdigit [OF d1] digit_value_hexdigit [OF d2])
  then show ?thesis
    by (simp only: key)
qed

lemma hex_value_hexdigest:
  "hex_value acc (hexdigest bs) = Inr (foldl (\<lambda>acc b. 256 * acc + uint b) acc bs)"
proof (induction bs arbitrary: acc)
  case Nil
  then show ?case by (simp add: hexdigest_def)
next
  case (Cons b bs)
  have "hexdigest (b # bs) = hex_byte b @ hexdigest bs"
    by (simp add: hexdigest_def)
  then show ?case
    by (simp add: hex_value_hex_byte Cons.IH)
qed

lemma hexdigest_eq_Nil: "hexdigest bs = [] \<longleftrightarrow> bs = []"
  by (cases bs) (simp_all add: hexdigest_def hex_byte_def)

lemma py_int16_hexdigest:
  "bs \<noteq> [] \<Longrightarrow> py_int16 (hexdigest bs) = Inr (be_uint bs)"
  by (simp add: py_int16_def hexdigest_eq_Nil hex_value_hexdigest be_uint_def)

lemma take_hexdigest: "take (2 * n) (hexdigest bs) = hexdigest (take n bs)"
proof (induction bs arbitrary: n)
  case Nil
  then show ?case by (simp add: hexdigest_def)
next
  case (Cons b bs)
  show ?case
  proof (cases n)
    case 0
    then show ?thesis by (simp add: hexdigest_def)
  next
    case (Suc m)
    have "take (2 * m) (hexdigest bs) = hexdigest (take m bs)"
      by (rule Cons.IH)
    then show ?thesis
      by (simp add: Suc hexdigest_def hex_byte_def)
  qed
qed

lemma drop_hexdigest: "drop (2 * n) (hexdigest bs) = hexdigest (drop n bs)"
proof (induction bs arbitrary: n)
  case Nil
  then show ?case by (simp add: hexdigest_def)
next
  case (Cons b bs)
  show ?case
  proof (cases n)
    case 0
    then show ?thesis by (simp add: hexdigest_def)
  next
    case (Suc m)
    have "drop (2 * m) (hexdigest bs) = hexdigest (drop m bs)"
      by (rule Cons.IH)
    then show ?thesis
      by (simp add: Suc hexdigest_def hex_byte_def)
  qed
qed

lemma first_hex_slice: "take 8 (hexdigest bs) = hexdigest (take 4 bs)"
  using take_hexdigest [of 4 bs] by simp

lemma second_hex_slice: "take 8 (drop 8 (hexdigest bs)) = hexdigest (take 4 (drop 4 bs))"
  using take_hexdigest [of 4 "drop 4 bs"] drop_hexdigest [of 4 bs] by simp

lemma be_uint_4:
  "be_uint [a, b, c, d] = 16777216 * uint a + 65536 * uint b + 256 * uint c + uint d"
  by (simp add: be_uint_def)

lemma uint_byte_range: "0 \<le> uint (b :: byte)" "uint (b :: byte) \<le> 255"
  using uint_bounded [of b] by simp_all

lemma length_4E:
  assumes "length bs = 4"
  obtains a b c d where "bs = [a, b, c, d]"
  using assms by (auto simp add: length_Suc_conv numeral_eq_Suc)

lemma be_uint_range:
  assumes "length bs = 4"
  shows "0 \<le> be_uint bs" "be_uint bs \<le> 4294967295"
proof -
  from assms obtain a b c d where bs: "bs = [a, b, c, d]" by (rule length_4E)
  show "0 \<le> be_uint bs" "be_uint bs \<le> 4294967295"
    using uint_byte_range [of a] uint_byte_range [of b] uint_byte_range [of c]
      uint_byte_range [of d]
    by (simp_all add: bs be_uint_4)
qed

lemma be_uint_max_iff:
  assumes "length bs = 4"
  shows "be_uint bs = 4294967295 \<longleftrightarrow> bs = [255, 255, 255, 255]"
proof -
  from assms obtain a b c d where bs: "bs = [a, b, c, d]" by (rule length_4E)
  have eq: "uint x = 255 \<longleftrightarrow> x = 255" for x :: byte
    by (simp add: word_uint_eq_iff)
  have "be_uint bs = 4294967295
      \<longleftrightarrow> uint a = 255 \<and> uint b = 255 \<and> uint c = 255 \<and> uint d = 255"
    unfolding bs be_uint_4
    using uint_byte_range [of a] uint_byte_range [of b] uint_byte_range [of c]
      uint_byte_range [of d]
    by arith
  also have "\<dots> \<longleftrightarrow> bs = [255, 255, 255, 255]"
    by (simp add: bs eq)
  finally show ?thesis .
qed

section \<open>Buckets and cells\<close>

lemma bucket_hexdigest:
  assumes "length bs = 4"
  shows "bucket (hexdigest bs) = Inr (Finite (round_double (of_int (be_uint bs) / 4294967295)))"
    and "0 \<le> round_double (of_int (be_uint bs) / 4294967295)"
    and "round_double (of_int (be_uint bs) / 4294967295) \<le> 1"
proof -
  have ne: "bs \<noteq> []" using assms by auto
  have "(0::rat) \<le> of_int (be_uint bs) / 4294967295"
    "(of_int (be_uint bs) :: rat) / 4294967295 \<le> of_int 1"
    using be_uint_range [OF assms] by simp_all
  note t = in_range_Finite [OF this]
  show "bucket (hexdigest bs) = Inr (Finite (round_double (of_int (be_uint bs) / 4294967295)))"
    using t(2) by (simp add: bucket_def py_int16_hexdigest [OF ne] int_true_div_def)
  show "0 \<le> round_double (of_int (be_uint bs) / 4294967295)"
    using t(3) by simp
  show "round_double (of_int (be_uint bs) / 4294967295) \<le> 1"
    using t(4) by simp
qed

lemma bucket_below_1:
  assumes "x \<le> 4294967294"
  shows "round_double (of_int x / 4294967295) \<le> 8589934591 / 8589934592"
proof -
  have "(of_int x :: rat) \<le> 4294967294"
    using assms by (simp add: of_int_le_numeral_iff)
  then have "(of_int x :: rat) / 4294967295 \<le> 4294967294 / 4294967295"
    by (simp add: divide_right_mono)
  then have "(of_int x :: rat) / 4294967295 \<le> 8589934591 / 8589934592"
    by simp
  moreover have "round_double (8589934591 / 8589934592) = 8589934591 / 8589934592"
    by code_simp
  ultimately show ?thesis
    by (rule round_double_le)
qed

lemma pick_3:
  assumes "length xs = 3" "0 \<le> b" "b \<le> 1"
  shows "pick xs (Finite b) = Inr (xs ! nat (\<lfloor>round_double (b * 3)\<rfloor> mod 3))"
proof -
  have len: "len xs = 3"
    using assms(1) by (simp add: len_def)
  have three: "float_of_int 3 = Inr (Finite 3)"
    using float_of_int_Finite(1) [of 3] round_double_of_int [of 3] by simp
  have "0 \<le> b * 3" "b * 3 \<le> of_int 3"
    using assms(2,3) by simp_all
  note t = in_range_Finite [OF this]
  have mul: "to_float (b * 3) = Finite (round_double (b * 3))"
    using t(1) by simp
  have nonneg: "0 \<le> round_double (b * 3)"
    using t(3) by simp
  have idx: "0 \<le> \<lfloor>round_double (b * 3)\<rfloor> mod 3" "\<lfloor>round_double (b * 3)\<rfloor> mod 3 < 3"
    by simp_all
  show ?thesis
    using idx nonneg by (simp add: pick_def len three mul py_mod_def py_getitem_def)
qed

subsection \<open>The cell index in doubles and in exact arithmetic\<close>




subsection \<open>Encoding\<close>

lemma utf8_char_error: "utf8_char c = Inl e \<Longrightarrow> e = UnicodeEncodeError"
  by (simp add: utf8_char_def split: if_splits)

lemma encode_error: "encode s = Inl e \<Longrightarrow> e = UnicodeEncodeError"
proof (induction s)
  case Nil
  then show ?case by simp
next
  case (Cons c cs)
  show ?case
  proof (cases "utf8_char c")
    case (Inl e')
    with Cons.prems show ?thesis
      by (simp add: utf8_char_error)
  next
    case b: (Inr b)
    show ?thesis
    proof (cases "encode cs")
      case (Inl e')
      with Cons b show ?thesis by simp
    next
      case (Inr bs)
      with Cons.prems b show ?thesis by simp
    qed
  qed
qed

lemma encodable_iff: "encodable s \<longleftrightarrow> (\<exists>bs. encode s = Inr bs)"
  by (cases "encode s") (simp_all add: encodable_def)

lemma not_encodable: "\<not> encodable s \<Longrightarrow> encode s = Inl UnicodeEncodeError"
  by (cases "encode s") (simp_all add: encodable_def encode_error)

lemma utf8_char_Inr_iff:
  "(\<exists>b. utf8_char c = Inr b) \<longleftrightarrow> 0 \<le> c \<and> c < 1114112 \<and> (c < 55296 \<or> 57344 \<le> c)"
  by (auto simp add: utf8_char_def)

lemma encodable_code_points:
  "encodable s \<longleftrightarrow> list_all (\<lambda>c. 0 \<le> c \<and> c < 1114112 \<and> (c < 55296 \<or> 57344 \<le> c)) s"
proof (induction s)
  case Nil
  then show ?case by (simp add: encodable_def)
next
  case (Cons c cs)
  have "encodable (c # cs) \<longleftrightarrow> (\<exists>b. utf8_char c = Inr b) \<and> encodable cs"
    by (cases "utf8_char c"; cases "encode cs") (simp_all add: encodable_def)
  then show ?case
    by (simp add: Cons.IH utf8_char_Inr_iff)
qed

lemma encodable_str_of: "encodable (str_of s)"
proof -
  have r: "(0::int) \<le> of_char c \<and> (of_char c :: int) < 256" for c :: char
    by (metis of_char_mod_256 pos_mod_bound pos_mod_sign zero_less_numeral)
  have "(0::int) \<le> of_char c \<and> (of_char c :: int) < 1114112 \<and> (of_char c :: int) < 55296"
    for c :: char
    using r [of c] by linarith
  then show ?thesis
    by (simp add: encodable_code_points str_of_def list_all_iff)
qed

text \<open>
  The encodings of \<^verbatim>\<open>'\xe9'\<close>, \<^verbatim>\<open>'\u20ac'\<close>, \<^verbatim>\<open>'\U0001f600'\<close> and \<^verbatim>\<open>'user-42'\<close>, and the
  lone surrogate \<^verbatim>\<open>'\ud800'\<close>.
\<close>

lemma encode_examples:
  "encode [233] = Inr [195, 169]"
  "encode [8364] = Inr [226, 130, 172]"
  "encode [128512] = Inr [240, 159, 152, 128]"
  "encode (str_of ''user-42'') = Inr [117, 115, 101, 114, 45, 52, 50]"
  "encode [55296] = Inl UnicodeEncodeError"
  by (simp_all add: utf8_char_def str_of_def)

subsection \<open>The value of an assignment\<close>

lemma bucket_one_iff:
  assumes "length bs = 4"
  shows "round_double (of_int (be_uint bs) / 4294967295) = 1 \<longleftrightarrow> bs = [255, 255, 255, 255]"
proof (cases "be_uint bs = 4294967295")
  case True
  then show ?thesis
    using be_uint_max_iff [OF assms] by simp
next
  case False
  with be_uint_range(2) [OF assms] have "be_uint bs \<le> 4294967294" by simp
  from bucket_below_1 [OF this] have "round_double (of_int (be_uint bs) / 4294967295) \<noteq> 1"
    by auto
  then show ?thesis
    using False be_uint_max_iff [OF assms] by simp
qed

lemma assign_unfold:
  "assign_variant_and_placement hmac s u =
     ebind (encode s) (\<lambda>key. ebind (encode u) (\<lambda>msg. cell_of_hexdigest (hexdigest (hmac key msg))))"
  by (simp add: assign_variant_and_placement_def cell_of_hexdigest_def Let_def)

lemma cell_of_hexdigest_value:
  assumes "8 \<le> length d"
  shows "cell_of_hexdigest (hexdigest d) =
    Inr (VARIANTS ! nat (\<lfloor>round_double (round_double
             (of_int (be_uint (take 4 d)) / 4294967295) * 3)\<rfloor> mod 3),
         PLACEMENTS ! nat (\<lfloor>round_double (round_double
             (of_int (be_uint (take 4 (drop 4 d))) / 4294967295) * 3)\<rfloor> mod 3))"
proof -
  have l1: "length (take 4 d) = 4" and l2: "length (take 4 (drop 4 d)) = 4"
    using assms by simp_all
  have v: "length VARIANTS = 3" and p: "length PLACEMENTS = 3"
    by (simp_all add: VARIANTS_def PLACEMENTS_def)
  note b1 = bucket_hexdigest [OF l1] and b2 = bucket_hexdigest [OF l2]
  show ?thesis
    unfolding cell_of_hexdigest_def
    by (simp only: first_hex_slice second_hex_slice b1(1) b2(1) ebind.simps
        pick_3 [OF v b1(2,3)] pick_3 [OF p b2(2,3)])
qed

lemma cell_of_hexdigest_prefix:
  "cell_of_hexdigest (hexdigest d) = cell_of_hexdigest (hexdigest (take 8 d))"
proof -
  have a: "take 4 (take 8 d) = take 4 d"
    by simp
  have b: "take 4 (drop 4 (take 8 d)) = take 4 (drop 4 d)"
    by (simp add: drop_take)
  show ?thesis
    unfolding cell_of_hexdigest_def first_hex_slice second_hex_slice a b ..
qed

lemma assign_by_digest_prefix:
  "assign_variant_and_placement hmac s u =
     ebind (digest_prefix hmac s u) (\<lambda>d. cell_of_hexdigest (hexdigest d))"
  by (cases "encode s"; cases "encode u")
    (simp_all add: assign_unfold digest_prefix_def cell_of_hexdigest_prefix [symmetric])

lemma assign_value:
  assumes "encode s = Inr key" "encode u = Inr msg" "8 \<le> length (hmac key msg)"
  shows "assign_variant_and_placement hmac s u =
    Inr (VARIANTS ! nat (\<lfloor>round_double (round_double
             (of_int (be_uint (take 4 (hmac key msg))) / 4294967295) * 3)\<rfloor> mod 3),
         PLACEMENTS ! nat (\<lfloor>round_double (round_double
             (of_int (be_uint (take 4 (drop 4 (hmac key msg)))) / 4294967295) * 3)\<rfloor> mod 3))"
  by (simp only: assign_unfold assms(1,2) ebind.simps cell_of_hexdigest_value [OF assms(3)])

lemma assign_not_encodable:
  assumes "\<not> (encodable s \<and> encodable u)"
  shows "assign_variant_and_placement hmac s u = Inl UnicodeEncodeError"
proof (cases "encode s")
  case (Inl e)
  then show ?thesis
    by (simp add: assign_unfold encode_error)
next
  case (Inr key)
  then have "\<not> encodable u"
    using assms by (simp add: encodable_def)
  then show ?thesis
    by (simp add: assign_unfold Inr not_encodable)
qed

section \<open>Claims about the assignment engine\<close>

text \<open>
  C3. For every identifier the assignment is deterministic: two calls with the same
  identifier, secret key and lists return the same pair, and the result depends on
  nothing else. The function takes no state and returns none; what it computes is a
  function of \<open>digest_prefix\<close>: the first eight bytes of the HMAC digest of the encoded
  identifier under the encoded key, or the error of the encoding. Two calls that agree
  there return the same result, be it a pair or the error, and two calls with the same
  key and identifier are the special case.
\<close>

theorem assign_determined_by_digest_prefix:
  assumes "digest_prefix h1 SECRET1 user_id1 = digest_prefix h2 SECRET2 user_id2"
  shows "assign_variant_and_placement h1 SECRET1 user_id1
       = assign_variant_and_placement h2 SECRET2 user_id2"
  by (simp only: assign_by_digest_prefix assms)

theorem assign_determined_by_digest_prefix_witness:
  "digest_prefix (constant_hmac (replicate 32 171)) (str_of ''changeme'') (str_of ''user-42'')
     = digest_prefix (constant_hmac (replicate 8 171 @ replicate 24 0)) (str_of ''changeme'') (str_of ''user-42'')
   \<and> assign_variant_and_placement (constant_hmac (replicate 32 171)) (str_of ''changeme'') (str_of ''user-42'')
     = assign_variant_and_placement (constant_hmac (replicate 8 171 @ replicate 24 0)) (str_of ''changeme'') (str_of ''user-42'')"
proof -
  have h: "digest_prefix (constant_hmac (replicate 32 171)) (str_of ''changeme'') (str_of ''user-42'')
     = digest_prefix (constant_hmac (replicate 8 171 @ replicate 24 0)) (str_of ''changeme'') (str_of ''user-42'')"
    by (simp add: digest_prefix_def constant_hmac_def)
  from assign_determined_by_digest_prefix [of "constant_hmac (replicate 32 171)" "str_of ''changeme''"
      "str_of ''user-42''" "constant_hmac (replicate 8 171 @ replicate 24 0)" "str_of ''changeme''"
      "str_of ''user-42''", OF h] h
  show ?thesis by blast
qed

text \<open>
  C6. Claimed: each bucket, a four-byte big-endian integer of the digest divided by
  \<open>0xFFFFFFFF\<close>, lies in the half-open interval \<open>[0, 1)\<close> for every possible digest.

  The divisor is the largest four-byte value, so a digest that starts with
  \<open>ff ff ff ff\<close> gives the bucket \<open>1.0\<close>.
\<close>

theorem bucket_of_ffffffff_is_one:
  "bucket (take 8 (hexdigest (constant_hmac (replicate 32 255) [] []))) = Inr (Finite 1)"
  by code_simp

text \<open>
  C6, as amended. For every digest of 32 bytes both buckets are finite doubles in the
  closed interval \<open>[0, 1]\<close>; a bucket is \<open>1.0\<close> exactly when its four digest bytes are all
  \<open>ff\<close>, and below 1 for every other digest.
\<close>

theorem bucket_closed_unit_interval:
  assumes "length digest = 32"
  shows "\<exists>bucket1 bucket2.
           bucket (take 8 (hexdigest digest)) = Inr (Finite bucket1)
         \<and> bucket (take 8 (drop 8 (hexdigest digest))) = Inr (Finite bucket2)
         \<and> 0 \<le> bucket1 \<and> bucket1 \<le> 1 \<and> 0 \<le> bucket2 \<and> bucket2 \<le> 1
         \<and> (bucket1 = 1) = (take 4 digest = [255, 255, 255, 255])
         \<and> (bucket2 = 1) = (take 4 (drop 4 digest) = [255, 255, 255, 255])"
proof -
  have l1: "length (take 4 digest) = 4" and l2: "length (take 4 (drop 4 digest)) = 4"
    using assms by simp_all
  note b1 = bucket_hexdigest [OF l1] and b2 = bucket_hexdigest [OF l2]
  show ?thesis
    unfolding first_hex_slice second_hex_slice
    using b1 b2 bucket_one_iff [OF l1] bucket_one_iff [OF l2] by blast
qed

theorem bucket_closed_unit_interval_witness:
  "length (replicate 4 255 @ replicate 28 (0 :: byte)) = 32
   \<and> (\<exists>bucket1 bucket2.
           bucket (take 8 (hexdigest (replicate 4 255 @ replicate 28 0))) = Inr (Finite bucket1)
         \<and> bucket (take 8 (drop 8 (hexdigest (replicate 4 255 @ replicate 28 0)))) = Inr (Finite bucket2)
         \<and> 0 \<le> bucket1 \<and> bucket1 \<le> 1 \<and> 0 \<le> bucket2 \<and> bucket2 \<le> 1
         \<and> (bucket1 = 1) = (take 4 (replicate 4 255 @ replicate 28 0) = [255, 255, 255, 255 :: byte])
         \<and> (bucket2 = 1) = (take 4 (drop 4 (replicate 4 255 @ replicate 28 0)) = [255, 255, 255, 255 :: byte]))"
proof -
  have h: "length (replicate 4 255 @ replicate 28 (0 :: byte)) = 32"
    by simp
  from bucket_closed_unit_interval [OF h] h show ?thesis
    by blast
qed



text \<open>
  C10. Claimed: for every identifier string, empty or not, the function returns a pair of
  an element of \<open>VARIANTS\<close> and an element of \<open>PLACEMENTS\<close>; it is total.

  A Python string can hold a lone surrogate, and \<^verbatim>\<open>user_id.encode()\<close> raises
  \<open>UnicodeEncodeError\<close> on it: for the identifier \<^verbatim>\<open>'\ud800'\<close>, the one code point 55296,
  the function returns no pair.
\<close>

theorem assign_lone_surrogate_raises:
  "assign_variant_and_placement (constant_hmac (replicate 32 255)) (str_of ''changeme'') [55296]
     = Inl UnicodeEncodeError"
proof -
  have "\<not> (encodable (str_of ''changeme'') \<and> encodable [55296])"
    by (simp add: encodable_code_points)
  then show ?thesis
    by (rule assign_not_encodable)
qed

text \<open>
  C10, as amended. With a digest of 32 bytes: for every key and identifier, empty or
  not, that have a UTF-8 encoding (no surrogate code point, \<open>encodable_code_points\<close>) the
  function returns a pair of an element of \<open>VARIANTS\<close> and an element of \<open>PLACEMENTS\<close>. A
  bucket of exactly \<open>1.0\<close> makes \<open>int(bucket * 3)\<close> equal to 3, and the remainder modulo 3
  brings the index back to 0. For every other key or identifier the function raises
  \<open>UnicodeEncodeError\<close>: no call raises an index error, or any other error.
\<close>

theorem assign_returns_a_cell:
  assumes len: "\<And>key msg. encode SECRET = Inr key \<Longrightarrow> encode user_id = Inr msg
                  \<Longrightarrow> length (hmac_sha256 key msg) = 32"
  shows "if encodable SECRET \<and> encodable user_id
         then \<exists>v p. assign_variant_and_placement hmac_sha256 SECRET user_id = Inr (v, p)
                \<and> v \<in> set VARIANTS \<and> p \<in> set PLACEMENTS
         else assign_variant_and_placement hmac_sha256 SECRET user_id = Inl UnicodeEncodeError"
proof (cases "encodable SECRET \<and> encodable user_id")
  case True
  then obtain key msg where key: "encode SECRET = Inr key" and msg: "encode user_id = Inr msg"
    by (auto simp add: encodable_iff)
  have len8: "8 \<le> length (hmac_sha256 key msg)"
    using len [OF key msg] by simp
  have "nat (i mod 3) < length VARIANTS" "nat (i mod 3) < length PLACEMENTS" for i :: int
    by (simp_all add: VARIANTS_def PLACEMENTS_def)
  then have "VARIANTS ! nat (i mod 3) \<in> set VARIANTS" "PLACEMENTS ! nat (j mod 3) \<in> set PLACEMENTS"
    for i j :: int
    by (simp_all only: nth_mem)
  then have "\<exists>v p. assign_variant_and_placement hmac_sha256 SECRET user_id = Inr (v, p)
                \<and> v \<in> set VARIANTS \<and> p \<in> set PLACEMENTS"
    unfolding assign_value [where hmac = hmac_sha256, OF key msg len8] by blast
  with True show ?thesis
    by simp
next
  case False
  from assign_not_encodable [OF this] False show ?thesis
    by simp
qed

theorem assign_returns_a_cell_witness:
  "(\<forall>key msg. length (constant_hmac (replicate 32 255) key msg) = 32)
   \<and> encodable (str_of ''changeme'') \<and> encodable []
   \<and> (\<exists>v p. assign_variant_and_placement (constant_hmac (replicate 32 255)) (str_of ''changeme'') [] = Inr (v, p)
           \<and> v \<in> set VARIANTS \<and> p \<in> set PLACEMENTS)"
proof -
  have h: "length (constant_hmac (replicate 32 255) key msg) = 32" for key msg
    by (simp add: constant_hmac_def)
  have "encodable []"
    by (simp add: encodable_def)
  then have e: "encodable (str_of ''changeme'') \<and> encodable []"
    by (simp add: encodable_str_of)
  from assign_returns_a_cell [of "str_of ''changeme''" "[]" "constant_hmac (replicate 32 255)", OF h] h e
  show ?thesis by simp
qed

end
